theory Spec2Isabelle
  imports Main "HOL-Library.Word" "HOL-Library.Multiset" "HOL-Library.AList"
begin

unbundle bit_operations_syntax

section \<open>External sorting of a file of machine integers (sorting/sort.py)\<close>

text \<open>
  The program sorts a flat file of 4-byte signed integers: \<open>cutter\<close> splits the input
  into segment files, \<open>sorter\<close> sorts each segment in memory, \<open>merger\<close> merges up to
  \<open>MERGES\<close> sorted segments into a new one, and \<open>merge_tasks\<close> together with the
  callback \<open>cb\<close> drive the reduction on a process pool until one segment is left,
  which \<open>rename\<close> installs as the output.

  The module is Python 2 (\<open>sort_profile\<close> takes \<open>len\<close> of a \<open>map\<close>, and
  \<open>tofile\<close> is handed the underlying \<open>f.file\<close>), so \<open>array.fromfile\<close> is the
  \<open>fread\<close> of whole items of CPython 2.
\<close>

subsection \<open>Tuning constants\<close>

text \<open>
  The module's globals. Every function below takes the constants it reads as leading
  arguments (\<open>CH\<close> for \<open>INT_PER_CHUNK\<close>, \<open>N\<close> for \<open>INT_PER_FILE\<close>, \<open>M\<close> for
  \<open>MERGES\<close>), so that the results hold for every setting and can be run on small ones.
\<close>

definition INT_PER_CHUNK :: nat where
  "INT_PER_CHUNK = 4096"

definition INT_PER_FILE :: nat where
  "INT_PER_FILE = 4096 * 128"

definition TMP_DIR :: string where
  "TMP_DIR = ''tmp''"

definition MERGES :: nat where
  "MERGES = 16"

subsection \<open>Records and bytes\<close>

type_synonym byte = "8 word"

text \<open>An item of \<open>array.array('i')\<close>: a C int of 4 bytes, read by Python as \<open>sint\<close>.\<close>

type_synonym cint = "32 word"

definition int_bytes :: "cint \<Rightarrow> byte list" where
  "int_bytes w = [ucast w, ucast (drop_bit 8 w), ucast (drop_bit 16 w), ucast (drop_bit 24 w)]"

definition bytes_int :: "byte \<Rightarrow> byte \<Rightarrow> byte \<Rightarrow> byte \<Rightarrow> cint" where
  "bytes_int b0 b1 b2 b3 =
     ucast b0 OR push_bit 8 (ucast b1) OR push_bit 16 (ucast b2) OR push_bit 24 (ucast b3)"

text \<open>\<open>array.tofile\<close> writes the items' bytes one after the other.\<close>

definition pack :: "cint list \<Rightarrow> byte list" where
  "pack a = concat (map int_bytes a)"

text \<open>
  The whole items of a byte sequence, as \<open>fread(buf, 4, n, fp)\<close> delivers them: bytes
  after the last whole item form no item.
\<close>

fun unpack :: "byte list \<Rightarrow> cint list" where
  "unpack (b0 # b1 # b2 # b3 # bs) = bytes_int b0 b1 b2 b3 # unpack bs"
| "unpack _ = []"

text \<open>
  \<open>a.fromfile(f, n)\<close> on an empty array \<open>a\<close>, for an open file whose unread bytes are
  \<open>f\<close>: the items appended, the bytes left unread, and whether \<open>EOFError\<close> was raised
  (fewer than \<open>n\<close> whole items were there; the items read stay in the array).
\<close>

definition fromfile :: "byte list \<Rightarrow> nat \<Rightarrow> cint list \<times> byte list \<times> bool" where
  "fromfile f n = (let a = take n (unpack f) in (a, drop (4 * n) f, length a < n))"

subsection \<open>The file system\<close>

type_synonym path = string

text \<open>
  Regular files by path. \<open>map_of fs p\<close> is the content of \<open>p\<close>, \<open>None\<close> when no
  such file exists.
\<close>

type_synonym filesystem = "(path \<times> byte list) list"

datatype error = IOError | OSError | IndexError

definition isfile :: "filesystem \<Rightarrow> path \<Rightarrow> bool" where
  "isfile fs p = (map_of fs p \<noteq> None)"

text \<open>
  \<open>NamedTemporaryFile('wb', delete=False, dir=TMP_DIR)\<close> creates a file under a name
  that no file has. Which name is the library's choice; here it is \<open>tmp\<close> in the
  directory, padded until it is longer than every existing name.
\<close>

definition tmpf :: "filesystem \<Rightarrow> path" where
  "tmpf fs =
     TMP_DIR @ ''/tmp'' @ replicate (Suc (foldr max (map (length \<circ> fst) fs) 0) - 7) (CHR ''x'')"

definition unlink :: "path \<Rightarrow> filesystem \<Rightarrow> error + filesystem" where
  "unlink p fs = (if isfile fs p then Inr (AList.delete p fs) else Inl OSError)"

subsection \<open>\<open>file_reader\<close>\<close>

text \<open>
  The \<open>while has_more\<close> loop over the open file; the result is the sequence of the
  integers yielded. \<open>None\<close> is a loop that never ends.
\<close>

partial_function (option) file_reader_loop :: "nat \<Rightarrow> byte list \<Rightarrow> cint list option" where
  "file_reader_loop CH f =
     (case fromfile f CH of
        (a, f', eof) \<Rightarrow>
          if eof then Some a
          else Option.bind (file_reader_loop CH f') (\<lambda>rest. Some (a @ rest)))"

declare file_reader_loop.simps [code]

definition file_reader :: "nat \<Rightarrow> path \<Rightarrow> filesystem \<Rightarrow> (error + cint list) option" where
  "file_reader CH fn fs =
     (case map_of fs fn of
        None \<Rightarrow> Some (Inl IOError)
      | Some f \<Rightarrow> map_option Inr (file_reader_loop CH f))"

subsection \<open>\<open>heapq.merge\<close>\<close>

text \<open>
  The heap of \<open>heapq.merge\<close> holds one entry \<open>[value, itnum, next]\<close> per iterator that
  is not exhausted, and the entry yielded next is the least one: the least head, the
  lowest iterator number among equal heads.
\<close>

definition least_head :: "cint list list \<Rightarrow> nat option" where
  "least_head its =
     (case filter (\<lambda>i. its ! i \<noteq> []) [0..<length its] of
        [] \<Rightarrow> None
      | i # js \<Rightarrow>
          Some (fold (\<lambda>j m. if sint (hd (its ! j)) < sint (hd (its ! m)) then j else m) js i))"

lemma least_head_bound:
  assumes "least_head its = Some i"
  shows "i < length its \<and> its ! i \<noteq> []"
proof -
  have fold_in: "fold (\<lambda>j m. if sint (hd (its ! j)) < sint (hd (its ! m)) then j else m) js k
                   \<in> set (k # js)" for js k
    by (induction js arbitrary: k) auto
  from assms obtain k js where
    f: "filter (\<lambda>i. its ! i \<noteq> []) [0..<length its] = k # js" and
    i: "i = fold (\<lambda>j m. if sint (hd (its ! j)) < sint (hd (its ! m)) then j else m) js k"
    by (auto simp: least_head_def split: list.splits)
  have "i \<in> set (filter (\<lambda>i. its ! i \<noteq> []) [0..<length its])"
    using fold_in [of js k] by (simp only: f i)
  then show ?thesis by simp
qed

function heapq_merge :: "cint list list \<Rightarrow> cint list" where
  "heapq_merge its =
     (case least_head its of
        None \<Rightarrow> []
      | Some i \<Rightarrow> hd (its ! i) # heapq_merge (its[i := tl (its ! i)]))"
  by pat_completeness auto
termination
proof (relation "measure (\<lambda>its. sum_list (map length its))")
  show "wf (measure (\<lambda>its. sum_list (map length its)))" by simp
next
  fix its :: "cint list list" and i
  assume "least_head its = Some i"
  then have i: "i < length its" "its ! i \<noteq> []"
    using least_head_bound by blast+
  have a: "length (its ! i) \<le> sum_list (map length its)"
    using elem_le_sum_list [of i "map length its"] i by simp
  have b: "0 < length (its ! i)"
    using i by simp
  have "sum_list (map length (its[i := tl (its ! i)]))
          = sum_list (map length its) + (length (its ! i) - 1) - length (its ! i)"
    using i by (simp add: sum_list_update map_update)
  with a b have "sum_list (map length (its[i := tl (its ! i)])) < sum_list (map length its)"
    by arith
  then show "(its[i := tl (its ! i)], its) \<in> measure (\<lambda>its. sum_list (map length its))"
    by simp
qed

subsection \<open>\<open>merge_files\<close>\<close>

text \<open>
  The body of \<open>for i in heapq.merge(*it)\<close>, over the block \<open>c\<close>, the index \<open>cidx\<close>
  and the bytes already written to the output. Assigning past the end of \<open>c\<close> raises.
\<close>

fun merge_loop :: "nat \<Rightarrow> cint list \<Rightarrow> cint list \<times> nat \<times> byte list
                   \<Rightarrow> error + (cint list \<times> nat \<times> byte list)" where
  "merge_loop CH [] st = Inr st"
| "merge_loop CH (i # rest) (c, cidx, out) =
     (if cidx < length c then
        (let c' = c[cidx := i]; cidx' = cidx + 1
         in if cidx' = CH then merge_loop CH rest (replicate CH 0, 0, out @ pack c')
            else merge_loop CH rest (c', cidx', out))
      else Inl IndexError)"

text \<open>
  \<open>heapq.merge\<close> takes the first item of every reader, in the order of \<open>fn_list\<close>,
  before it yields anything: a reader's \<open>open\<close> fails there, or its loop never ends.
\<close>

fun read_all :: "nat \<Rightarrow> path list \<Rightarrow> filesystem \<Rightarrow> (error + cint list list) option" where
  "read_all CH [] fs = Some (Inr [])"
| "read_all CH (fn # fns) fs =
     (case file_reader CH fn fs of
        None \<Rightarrow> None
      | Some (Inl e) \<Rightarrow> Some (Inl e)
      | Some (Inr a) \<Rightarrow>
          (case read_all CH fns fs of
             None \<Rightarrow> None
           | Some (Inl e) \<Rightarrow> Some (Inl e)
           | Some (Inr its) \<Rightarrow> Some (Inr (a # its))))"

text \<open>
  The result and the file system left behind. The temporary file is created before any
  input is opened, and stays (empty) when an input cannot be opened.
\<close>

definition merge_files :: "nat \<Rightarrow> path list \<Rightarrow> filesystem
                           \<Rightarrow> ((error + path) \<times> filesystem) option" where
  "merge_files CH fn_list fs =
     (let name = tmpf fs; fs1 = AList.update name [] fs
      in case read_all CH fn_list fs1 of
           None \<Rightarrow> None
         | Some (Inl e) \<Rightarrow> Some (Inl e, fs1)
         | Some (Inr its) \<Rightarrow>
             (case merge_loop CH (heapq_merge its) (replicate CH 0, 0, []) of
                Inl e \<Rightarrow> Some (Inl e, fs1)
              | Inr (c, cidx, out) \<Rightarrow>
                  Some (Inr name,
                        AList.update name (out @ pack (map (\<lambda>i. c ! i) [0..<cidx])) fs1)))"

subsection \<open>\<open>sorter\<close>, \<open>merger\<close>, \<open>cutter\<close>, \<open>rename\<close>\<close>

definition sorter :: "nat \<Rightarrow> path \<Rightarrow> filesystem \<Rightarrow> (error + path) \<times> filesystem" where
  "sorter N fn fs =
     (case map_of fs fn of
        None \<Rightarrow> (Inl IOError, fs)
      | Some f \<Rightarrow>
          (case fromfile f N of
             (a, f', eof) \<Rightarrow> (Inr fn, AList.update fn (pack (sort_key sint a)) fs)))"

text \<open>The \<open>for fn in fn_list: os.unlink(fn)\<close> loop: it stops at the first failure.\<close>

fun unlink_all :: "path list \<Rightarrow> filesystem \<Rightarrow> error option \<times> filesystem" where
  "unlink_all [] fs = (None, fs)"
| "unlink_all (fn # fns) fs =
     (case unlink fn fs of Inl e \<Rightarrow> (Some e, fs) | Inr fs' \<Rightarrow> unlink_all fns fs')"

definition merger :: "nat \<Rightarrow> path list \<Rightarrow> filesystem
                      \<Rightarrow> ((error + path) \<times> filesystem) option" where
  "merger CH fn_list fs =
     (if length fn_list = 1 then Some (Inr (fn_list ! 0), fs)
      else case merge_files CH fn_list fs of
             None \<Rightarrow> None
           | Some (Inl e, fs') \<Rightarrow> Some (Inl e, fs')
           | Some (Inr res, fs') \<Rightarrow>
               (case unlink_all fn_list fs' of
                  (Some e, fs'') \<Rightarrow> Some (Inl e, fs'')
                | (None, fs'') \<Rightarrow> Some (Inr res, fs'')))"

text \<open>
  One turn of the generator \<open>cutter\<close> over the open input, whose unread bytes are
  \<open>f\<close>: \<open>None\<close> when the chunk read is empty (the generator is exhausted), else the
  name yielded, the bytes left unread and the file system with the segment written.
\<close>

definition cutter_next :: "nat \<Rightarrow> byte list \<Rightarrow> filesystem
                           \<Rightarrow> (path \<times> byte list \<times> filesystem) option" where
  "cutter_next N f fs =
     (let chunk = take (N * 4) f
      in if chunk = [] then None
         else (let name = tmpf fs
               in Some (name, drop (N * 4) f, AList.update name chunk fs)))"

lemma cutter_next_shorter:
  "cutter_next N f fs = Some (name, f', fs') \<Longrightarrow> length f' < length f"
  by (auto simp: cutter_next_def Let_def split: if_splits)

text \<open>All the names the generator yields, in order.\<close>

function cutter_loop :: "nat \<Rightarrow> byte list \<Rightarrow> filesystem \<Rightarrow> path list \<times> filesystem" where
  "cutter_loop N f fs =
     (case cutter_next N f fs of
        None \<Rightarrow> ([], fs)
      | Some (name, f', fs') \<Rightarrow>
          (case cutter_loop N f' fs' of (names, fs'') \<Rightarrow> (name # names, fs'')))"
  by pat_completeness auto
termination
  by (relation "measure (\<lambda>(N, f, fs). length f)") (auto dest: cutter_next_shorter)

definition cutter :: "nat \<Rightarrow> path \<Rightarrow> filesystem \<Rightarrow> error + (path list \<times> filesystem)" where
  "cutter N fn fs =
     (case map_of fs fn of
        None \<Rightarrow> Inl IOError
      | Some f \<Rightarrow> Inr (cutter_loop N f fs))"

text \<open>
  \<open>rename\<close>: the exception raised, if any (it ends in \<open>exit(1)\<close>), and the file
  system left behind.
\<close>

definition rename :: "path \<Rightarrow> path \<Rightarrow> filesystem \<Rightarrow> error option \<times> filesystem" where
  "rename src tgt fs =
     (let fs1 = (if isfile fs tgt then AList.delete tgt fs else fs)
      in case map_of fs1 src of
           None \<Rightarrow> (Some OSError, fs1)
         | Some f \<Rightarrow> (None, AList.update tgt f (AList.delete src fs1)))"

subsection \<open>\<open>sort\<close>: the coordinator, the pool and the callback\<close>

text \<open>
  \<open>sort\<close> runs in the main thread; the tasks run in the pool's worker processes, and
  the callback \<open>cb\<close> of a finished task runs in the pool's result-handler thread of the
  main process, at a moment the coordinator does not choose. A run is therefore a
  sequence of events: a statement of the coordinator, or the completion of one of the
  tasks in flight (the task's effect on its files, then its callback).
\<close>

datatype task = Sort path | Merge "path list"

text \<open>
  Where the main thread stands: in \<open>sort\<close> (\<open>Start\<close>: before the first item of
  \<open>cutter(input)\<close>; \<open>Cutting f\<close>: in the \<open>for\<close> loop over \<open>cutter\<close>, with \<open>f\<close> of the
  input unread; \<open>SortJoin\<close>: at \<open>pool.close(); pool.join()\<close>; \<open>Rename\<close>: at the call of
  \<open>rename\<close>), or in the generator \<open>merge_tasks\<close>, or at an end (\<open>Done\<close>: \<open>sort\<close>
  returned; \<open>Exit1\<close>: \<open>exit(1)\<close> in \<open>rename\<close>; \<open>Raised\<close>: an exception left
  \<open>sort\<close>).

  In \<open>merge_tasks\<close> every read and every write of the global \<open>sorted_fn_list\<close> is a
  point of its own, since the callback may run between any two of them:
  \<^item> \<open>LoopTop\<close>: at \<open>while True\<close>, \<open>len(sorted_fn_list) > 1\<close> is evaluated next;
  \<^item> \<open>Taking\<close>: the test held, the slice \<open>sorted_fn_list[:MERGES]\<close> is evaluated next;
  \<^item> \<open>Taken l\<close>: the slice \<open>l\<close> was yielded, \<open>sort\<close> submits it with \<open>apply_async\<close> next;
  \<^item> \<open>Yielded\<close>: the task is submitted and the generator resumed, the right-hand side of
    \<open>sorted_fn_list = sorted_fn_list[MERGES:]\<close> is evaluated next;
  \<^item> \<open>Sliced l\<close>: the right-hand side has the value \<open>l\<close>, a new list; it is stored in the
    global next, and what the callback appended to the old list since is gone with it;
  \<^item> \<open>Barrier\<close>: at \<open>pool.close(); pool.join()\<close>, which returns when no task is in flight;
    \<open>len(sorted_fn_list) == 1\<close> is evaluated then, with no callback left to run.

  The callback is one event: it takes the list the global names and appends to it. An
  append to a list that the coordinator replaces before the append is done is lost like
  one done between the slice and the store (\<open>Sliced\<close>), and any other is in the new
  list like one done before the slice.
\<close>

datatype point =
  Start | Cutting "byte list" | SortJoin
  | LoopTop | Taking | Taken "path list" | Yielded | Sliced "path list" | Barrier
  | Rename | Done | Exit1 | Raised error

record state =
  files :: filesystem
  sorted_fn_list :: "path list"
  in_flight :: "task list"
  pc :: point

definition cb :: "path \<Rightarrow> state \<Rightarrow> state" where
  "cb arg s = s\<lparr>sorted_fn_list := sorted_fn_list s @ [arg]\<rparr>"

fun run_task :: "nat \<Rightarrow> nat \<Rightarrow> task \<Rightarrow> filesystem \<Rightarrow> ((error + path) \<times> filesystem) option" where
  "run_task CH N (Sort fn) fs = Some (sorter N fn fs)"
| "run_task CH N (Merge fn_list) fs = merger CH fn_list fs"

text \<open>
  The \<open>i\<close>-th task in flight completes. A task that raised leaves the pool without a
  callback (\<open>apply_async\<close> is given no error callback and its result is never read).
\<close>

definition completion :: "nat \<Rightarrow> nat \<Rightarrow> nat \<Rightarrow> state \<Rightarrow> state option" where
  "completion CH N i s =
     (if i < length (in_flight s) then
        (case run_task CH N (in_flight s ! i) (files s) of
           None \<Rightarrow> None
         | Some (r, fs') \<Rightarrow>
             (let s' = s\<lparr>files := fs',
                         in_flight := take i (in_flight s) @ drop (Suc i) (in_flight s)\<rparr>
              in Some (case r of Inl e \<Rightarrow> s' | Inr fn \<Rightarrow> cb fn s')))
      else None)"

text \<open>
  The next statement of the main thread; \<open>None\<close> when it is blocked in \<open>pool.join()\<close>
  or has ended.
\<close>

definition coordinator :: "nat \<Rightarrow> nat \<Rightarrow> path \<Rightarrow> path \<Rightarrow> state \<Rightarrow> state option" where
  "coordinator N M input output s =
     (case pc s of
        Start \<Rightarrow>
          (case map_of (files s) input of
             None \<Rightarrow> Some (s\<lparr>pc := Raised IOError\<rparr>)
           | Some f \<Rightarrow> Some (s\<lparr>pc := Cutting f\<rparr>))
      | Cutting f \<Rightarrow>
          (case cutter_next N f (files s) of
             None \<Rightarrow> Some (s\<lparr>pc := SortJoin\<rparr>)
           | Some (fn, f', fs') \<Rightarrow>
               Some (s\<lparr>files := fs', in_flight := in_flight s @ [Sort fn], pc := Cutting f'\<rparr>))
      | SortJoin \<Rightarrow>
          (if in_flight s = [] then Some (s\<lparr>pc := LoopTop\<rparr>) else None)
      | LoopTop \<Rightarrow>
          (if length (sorted_fn_list s) > 1 then Some (s\<lparr>pc := Taking\<rparr>)
           else Some (s\<lparr>pc := Barrier\<rparr>))
      | Taking \<Rightarrow>
          Some (s\<lparr>pc := Taken (take M (sorted_fn_list s))\<rparr>)
      | Taken l \<Rightarrow>
          Some (s\<lparr>in_flight := in_flight s @ [Merge l], pc := Yielded\<rparr>)
      | Yielded \<Rightarrow>
          Some (s\<lparr>pc := Sliced (drop M (sorted_fn_list s))\<rparr>)
      | Sliced l \<Rightarrow>
          Some (s\<lparr>sorted_fn_list := l, pc := LoopTop\<rparr>)
      | Barrier \<Rightarrow>
          (if in_flight s = []
           then (if length (sorted_fn_list s) = 1 then Some (s\<lparr>pc := Rename\<rparr>)
                 else Some (s\<lparr>pc := LoopTop\<rparr>))
           else None)
      | Rename \<Rightarrow>
          (case sorted_fn_list s of
             [] \<Rightarrow> Some (s\<lparr>pc := Raised IndexError\<rparr>)
           | src # rest \<Rightarrow>
               (case rename src output (files s) of
                  (None, fs') \<Rightarrow> Some (s\<lparr>files := fs', pc := Done\<rparr>)
                | (Some e, fs') \<Rightarrow> Some (s\<lparr>files := fs', pc := Exit1\<rparr>)))
      | Done \<Rightarrow> None
      | Exit1 \<Rightarrow> None
      | Raised e \<Rightarrow> None)"

datatype event = Coordinator | Completion nat

fun step :: "nat \<Rightarrow> nat \<Rightarrow> nat \<Rightarrow> path \<Rightarrow> path \<Rightarrow> event \<Rightarrow> state \<Rightarrow> state option" where
  "step CH N M input output Coordinator s = coordinator N M input output s"
| "step CH N M input output (Completion i) s = completion CH N i s"

text \<open>A run under a schedule; \<open>None\<close> when the schedule names an event that cannot happen.\<close>

fun run :: "nat \<Rightarrow> nat \<Rightarrow> nat \<Rightarrow> path \<Rightarrow> path \<Rightarrow> event list \<Rightarrow> state \<Rightarrow> state option" where
  "run CH N M input output [] s = Some s"
| "run CH N M input output (e # es) s =
     (case step CH N M input output e s of
        None \<Rightarrow> None
      | Some s' \<Rightarrow> run CH N M input output es s')"

text \<open>
  The call \<open>sort(input, output)\<close> in a fresh process, on the file system \<open>fs\<close>: the
  module's \<open>sorted_fn_list\<close> is empty and no task is in flight.
\<close>

definition sort_start :: "filesystem \<Rightarrow> state" where
  "sort_start fs = \<lparr>files = fs, sorted_fn_list = [], in_flight = [], pc = Start\<rparr>"

text \<open>
  The loop of \<open>merge_tasks\<close> alone, entered with the ready queue \<open>fn_list\<close> and a fresh
  pool.
\<close>

definition merge_tasks_start :: "filesystem \<Rightarrow> path list \<Rightarrow> state" where
  "merge_tasks_start fs fn_list =
     \<lparr>files = fs, sorted_fn_list = fn_list, in_flight = [], pc = LoopTop\<rparr>"

text \<open>A file of whole records in non-decreasing order.\<close>

definition sorted_file :: "byte list \<Rightarrow> bool" where
  "sorted_file f = (length f mod 4 = 0 \<and> sorted (map sint (unpack f)))"


section \<open>Properties\<close>

subsection \<open>Packing, unpacking and fresh names\<close>

lemma bytes_int_int_bytes:
  "bytes_int (ucast w) (ucast (drop_bit 8 w)) (ucast (drop_bit 16 w)) (ucast (drop_bit 24 w)) = w"
proof (rule bit_word_eqI)
  fix n assume n: "n < LENGTH(32)"
  consider "n < 8" | "8 \<le> n" "n < 16" | "16 \<le> n" "n < 24" | "24 \<le> n" "n < 32"
    using n by fastforce
  then show "bit (bytes_int (ucast w) (ucast (drop_bit 8 w)) (ucast (drop_bit 16 w))
                 (ucast (drop_bit 24 w))) n = bit w n"
    by cases (auto simp add: bytes_int_def bit_simps)
qed

lemma int_bytes_bytes_int: "int_bytes (bytes_int b0 b1 b2 b3) = [b0, b1, b2, b3]"
  unfolding bytes_int_def int_bytes_def
  apply simp
  apply (intro conjI; rule bit_word_eqI)
  apply (auto simp add: bit_simps dest: bit_imp_le_length)
  done

lemma unpack_pack: "unpack (pack a) = a"
  by (induction a) (simp_all add: pack_def int_bytes_def bytes_int_int_bytes)

lemma length_pack: "length (pack a) = 4 * length a"
  by (induction a) (simp_all add: pack_def int_bytes_def)

lemma pack_append: "pack (a @ b) = pack a @ pack b"
  by (simp add: pack_def)

lemma length_unpack: "length (unpack f) = length f div 4"
  by (induction f rule: unpack.induct) simp_all

lemma take_4_plus: "take (4 + k) (a # b # c # d # xs) = a # b # c # d # take k xs"
  by (simp add: eval_nat_numeral)

lemma drop_4_plus: "drop (4 + k) (a # b # c # d # xs) = drop k xs"
  by (simp add: eval_nat_numeral)

lemma pack_unpack: "pack (unpack f) = take (4 * (length f div 4)) f"
proof (induction f rule: unpack.induct)
  case (1 b0 b1 b2 b3 bs)
  have "4 * ((4 + length bs) div 4) = 4 + 4 * (length bs div 4)"
    by presburger
  then show ?case
    using 1 int_bytes_bytes_int [of b0 b1 b2 b3] by (simp add: pack_def take_4_plus)
qed (simp_all add: pack_def)

lemma pack_unpack_whole: "length f mod 4 = 0 \<Longrightarrow> pack (unpack f) = f"
proof -
  assume "length f mod 4 = 0"
  then have "4 * (length f div 4) = length f"
    by presburger
  then show ?thesis
    by (simp add: pack_unpack)
qed

lemma unpack_drop: "unpack (drop (4 * n) f) = drop n (unpack f)"
proof (induction n arbitrary: f)
  case 0
  then show ?case by simp
next
  case (Suc n)
  show ?case
  proof (cases f rule: unpack.cases)
    case (1 b0 b1 b2 b3 bs)
    have "4 * Suc n = 4 + 4 * n"
      by simp
    then show ?thesis
      using 1 Suc [of bs] by (simp only: drop_4_plus unpack.simps drop_Suc_Cons)
  qed (simp_all)
qed

lemma foldr_max_ge: "x \<in> set xs \<Longrightarrow> x \<le> foldr max xs (0::nat)"
  by (induction xs) (auto simp: max_def)

lemma tmpf_longer: "(p, f) \<in> set fs \<Longrightarrow> length p < length (tmpf fs)"
proof -
  assume "(p, f) \<in> set fs"
  then have "length p \<in> set (map (length \<circ> fst) fs)"
    by force
  then have "length p \<le> foldr max (map (length \<circ> fst) fs) 0"
    by (rule foldr_max_ge)
  then show ?thesis
    by (simp add: tmpf_def TMP_DIR_def)
qed

lemma tmpf_fresh: "map_of fs (tmpf fs) = None"
proof (cases "map_of fs (tmpf fs)")
  case (Some f)
  then have "(tmpf fs, f) \<in> set fs"
    by (rule map_of_SomeD)
  then show ?thesis
    using tmpf_longer by fastforce
qed simp

lemma file_reader_loop_eq:
  assumes "0 < CH"
  shows "file_reader_loop CH f = Some (unpack f)"
proof (induction f rule: length_induct)
  case (1 f)
  show ?case
  proof (cases "length (unpack f) < CH")
    case True
    then show ?thesis
      by (subst file_reader_loop.simps) (simp add: fromfile_def)
  next
    case False
    then have "4 * CH \<le> length f"
      by (simp add: length_unpack)
    then have "length (drop (4 * CH) f) < length f"
      using assms by simp
    then have "file_reader_loop CH (drop (4 * CH) f) = Some (unpack (drop (4 * CH) f))"
      using 1 by blast
    then show ?thesis
      using False
      by (subst file_reader_loop.simps) (simp add: fromfile_def unpack_drop)
  qed
qed

lemma file_reader_eq:
  "0 < CH \<Longrightarrow> file_reader CH fn fs =
     Some (case map_of fs fn of None \<Rightarrow> Inl IOError | Some f \<Rightarrow> Inr (unpack f))"
  by (simp add: file_reader_def file_reader_loop_eq split: option.splits)

subsection \<open>Facts about \<open>heapq_merge\<close>\<close>

declare heapq_merge.simps [simp del]

lemma least_head_None: "least_head its = None \<Longrightarrow> xs \<in> set its \<Longrightarrow> xs = []"
proof -
  assume n: "least_head its = None" and x: "xs \<in> set its"
  from n have "filter (\<lambda>i. its ! i \<noteq> []) [0..<length its] = []"
    by (simp add: least_head_def split: list.splits)
  then have "\<forall>i < length its. its ! i = []"
    by (simp add: filter_empty_conv)
  with x show ?thesis
    by (auto simp: in_set_conv_nth)
qed

lemma fold_least:
  "\<forall>x \<in> set (k # js).
     sint (hd (its ! fold (\<lambda>j m. if sint (hd (its ! j)) < sint (hd (its ! m)) then j else m) js k))
       \<le> sint (hd (its ! x))"
proof (induction js arbitrary: k)
  case Nil
  then show ?case by simp
next
  case (Cons j js)
  let ?f = "\<lambda>j m. if sint (hd (its ! j)) < sint (hd (its ! m)) then j else m"
  have step: "\<forall>y \<in> set (?f j k # js). sint (hd (its ! fold ?f js (?f j k))) \<le> sint (hd (its ! y))"
    by (rule Cons.IH)
  have k': "sint (hd (its ! ?f j k)) \<le> sint (hd (its ! j))"
           "sint (hd (its ! ?f j k)) \<le> sint (hd (its ! k))"
    by auto
  have top: "sint (hd (its ! fold ?f js (?f j k))) \<le> sint (hd (its ! ?f j k))"
    using step by (simp del: if_split)
  have "sint (hd (its ! fold ?f js (?f j k))) \<le> sint (hd (its ! j))"
       "sint (hd (its ! fold ?f js (?f j k))) \<le> sint (hd (its ! k))"
    using top k' by linarith+
  then show ?case
    using step by (simp del: if_split)
qed

lemma least_head_least:
  assumes "least_head its = Some i" "j < length its" "its ! j \<noteq> []"
  shows "sint (hd (its ! i)) \<le> sint (hd (its ! j))"
proof -
  from assms(1) obtain k js where
    f: "filter (\<lambda>i. its ! i \<noteq> []) [0..<length its] = k # js" and
    i: "i = fold (\<lambda>j m. if sint (hd (its ! j)) < sint (hd (its ! m)) then j else m) js k"
    by (auto simp: least_head_def split: list.splits)
  have "j \<in> set (filter (\<lambda>i. its ! i \<noteq> []) [0..<length its])"
    using assms(2,3) by simp
  then have "j \<in> set (k # js)"
    by (simp only: f)
  then show ?thesis
    unfolding i using fold_least [of k js its] by blast
qed

lemma concat_update:
  "i < length its \<Longrightarrow> its ! i = x # t \<Longrightarrow>
     mset (concat its) = add_mset x (mset (concat (its[i := t])))"
proof -
  assume i: "i < length its" and x: "its ! i = x # t"
  have "concat its = concat (take i its) @ (x # t) @ concat (drop (Suc i) its)"
    using id_take_nth_drop [OF i] x by (metis concat.simps(2) concat_append)
  moreover have "concat (its[i := t]) = concat (take i its) @ t @ concat (drop (Suc i) its)"
    using upd_conv_take_nth_drop [OF i, of t] by simp
  ultimately show ?thesis
    by simp
qed

lemma mset_heapq_merge: "mset (heapq_merge its) = mset (concat its)"
proof (induction its rule: heapq_merge.induct)
  case (1 its)
  show ?case
  proof (cases "least_head its")
    case None
    then have "concat its = []"
      using least_head_None by auto
    with None show ?thesis by (simp add: heapq_merge.simps)
  next
    case (Some i)
    then have i: "i < length its" "its ! i \<noteq> []"
      using least_head_bound by blast+
    then obtain x t where x: "its ! i = x # t"
      by (cases "its ! i") auto
    have "mset (heapq_merge (its[i := tl (its ! i)])) = mset (concat (its[i := tl (its ! i)]))"
      using 1 Some by simp
    moreover have "heapq_merge its = x # heapq_merge (its[i := tl (its ! i)])"
      by (subst heapq_merge.simps) (simp add: Some x)
    ultimately show ?thesis
      using x concat_update [OF i(1) x] by simp
  qed
qed

lemma length_heapq_merge: "length (heapq_merge its) = sum_list (map length its)"
proof -
  have "length (heapq_merge its) = length (concat its)"
    using mset_heapq_merge [of its] by (metis size_mset)
  then show ?thesis
    by (simp add: length_concat)
qed

lemma sorted_heapq_merge:
  "\<forall>xs \<in> set its. sorted (map sint xs) \<Longrightarrow> sorted (map sint (heapq_merge its))"
proof (induction its rule: heapq_merge.induct)
  case (1 its)
  show ?case
  proof (cases "least_head its")
    case None
    then show ?thesis by (simp add: heapq_merge.simps)
  next
    case (Some i)
    then have i: "i < length its" "its ! i \<noteq> []"
      using least_head_bound by blast+
    then obtain x t where x: "its ! i = x # t"
      by (cases "its ! i") auto
    let ?its' = "its[i := tl (its ! i)]"
    have "sorted (map sint (its ! i))"
      using 1(2) i(1) by simp
    then have t: "sorted (map sint t)"
      using x by simp
    have srt': "\<forall>xs \<in> set ?its'. sorted (map sint xs)"
    proof
      fix xs assume "xs \<in> set ?its'"
      then have "xs \<in> insert (tl (its ! i)) (set its)"
        using set_update_subset_insert by fast
      then show "sorted (map sint xs)"
        using 1(2) t x by auto
    qed
    have rest: "sorted (map sint (heapq_merge ?its'))"
      using 1(1) [OF Some srt'] .
    have least: "sint x \<le> sint y" if "y \<in> set (concat its)" for y
    proof -
      from that obtain ys where "ys \<in> set its" "y \<in> set ys"
        by auto
      then obtain j where j: "j < length its" "y \<in> set (its ! j)"
        by (metis in_set_conv_nth)
      then have ne: "its ! j \<noteq> []" by auto
      have "sorted (map sint (its ! j))"
        using 1(2) j(1) by simp
      then have "sint (hd (its ! j)) \<le> sint y"
        using j(2) ne by (cases "its ! j") auto
      moreover have "sint x \<le> sint (hd (its ! j))"
        using least_head_least [OF Some j(1) ne] x by simp
      ultimately show ?thesis by simp
    qed
    have "set (heapq_merge ?its') = set (concat ?its')"
      using mset_heapq_merge [of ?its'] by (metis set_mset_mset)
    also have "\<dots> \<subseteq> set (concat its)"
    proof -
      have "set_mset (mset (concat its)) = set_mset (add_mset x (mset (concat ?its')))"
        using concat_update [OF i(1) x] x by simp
      then have "set (concat its) = insert x (set (concat ?its'))"
        by (simp only: set_mset_mset set_mset_add_mset_insert)
      then show ?thesis
        by blast
    qed
    finally have "\<forall>y \<in> set (heapq_merge ?its'). sint x \<le> sint y"
      using least by blast
    moreover have "heapq_merge its = x # heapq_merge ?its'"
      by (subst heapq_merge.simps) (simp add: Some x)
    ultimately show ?thesis
      using rest by simp
  qed
qed

subsection \<open>Facts about \<open>merge_files\<close>\<close>

lemma take_Suc_update: "k < length c \<Longrightarrow> take (Suc k) (c[k := i]) = take k c @ [i]"
  by (simp add: take_Suc_conv_app_nth)

lemma merge_loop_eq:
  assumes "length c = CH" "cidx < CH"
  shows "\<exists>c' cidx' out'. merge_loop CH xs (c, cidx, out) = Inr (c', cidx', out') \<and>
           length c' = CH \<and> cidx' < CH \<and>
           out' @ pack (take cidx' c') = out @ pack (take cidx c @ xs)"
  using assms
proof (induction xs arbitrary: c cidx out)
  case Nil
  then show ?case by simp
next
  case (Cons i rest)
  let ?c' = "c[cidx := i]"
  have lt: "cidx < length c"
    using Cons.prems by simp
  have tk: "take (Suc cidx) ?c' = take cidx c @ [i]"
    using lt by (rule take_Suc_update)
  show ?case
  proof (cases "Suc cidx = CH")
    case True
    then have full: "?c' = take cidx c @ [i]"
      using tk Cons.prems by simp
    obtain c' cidx' out' where
      r: "merge_loop CH rest (replicate CH 0, 0, out @ pack ?c') = Inr (c', cidx', out')"
         "length c' = CH" "cidx' < CH"
         "out' @ pack (take cidx' c') = (out @ pack ?c') @ pack (take 0 (replicate CH 0) @ rest)"
      using Cons.IH [of "replicate CH 0" 0 "out @ pack ?c'"] Cons.prems by auto
    have "merge_loop CH (i # rest) (c, cidx, out) = Inr (c', cidx', out')"
      using lt True r(1) by simp
    moreover have "out' @ pack (take cidx' c') = out @ pack (take cidx c @ i # rest)"
      using r(4) by (simp add: full pack_def)
    ultimately show ?thesis
      using r(2,3) by blast
  next
    case False
    then have lt': "Suc cidx < CH"
      using Cons.prems by simp
    obtain c' cidx' out' where
      r: "merge_loop CH rest (?c', Suc cidx, out) = Inr (c', cidx', out')"
         "length c' = CH" "cidx' < CH"
         "out' @ pack (take cidx' c') = out @ pack (take (Suc cidx) ?c' @ rest)"
      using Cons.IH [of ?c' "Suc cidx" out] Cons.prems lt' by auto
    have "merge_loop CH (i # rest) (c, cidx, out) = Inr (c', cidx', out')"
      using lt False r(1) by simp
    moreover have "out' @ pack (take cidx' c') = out @ pack (take cidx c @ i # rest)"
      using r(4) by (simp add: tk pack_def)
    ultimately show ?thesis
      using r(2,3) by blast
  qed
qed

lemma map_nth_take: "k \<le> length c \<Longrightarrow> map (\<lambda>i. c ! i) [0..<k] = take k c"
  by (rule nth_equalityI) simp_all

lemma read_all_eq:
  assumes "0 < CH"
  shows "read_all CH fn_list fs =
           Some (if \<forall>fn \<in> set fn_list. isfile fs fn
                 then Inr (map (\<lambda>fn. unpack (the (map_of fs fn))) fn_list)
                 else Inl IOError)"
  by (induction fn_list) (auto simp: file_reader_eq [OF assms] isfile_def split: option.splits)

lemma merge_files_eq:
  assumes "0 < CH"
  shows "merge_files CH fn_list fs =
           (let name = tmpf fs; fs1 = AList.update name [] fs
            in if \<forall>fn \<in> set fn_list. isfile fs1 fn
               then Some (Inr name,
                          AList.update name
                            (pack (heapq_merge (map (\<lambda>fn. unpack (the (map_of fs1 fn))) fn_list)))
                            fs1)
               else Some (Inl IOError, fs1))"
proof -
  let ?fs1 = "AList.update (tmpf fs) [] fs"
  let ?xs = "heapq_merge (map (\<lambda>fn. unpack (the (map_of ?fs1 fn))) fn_list)"
  obtain c' cidx' out' where
    r: "merge_loop CH ?xs (replicate CH 0, 0, []) = Inr (c', cidx', out')"
       "length c' = CH" "cidx' < CH"
       "out' @ pack (take cidx' c') = [] @ pack (take 0 (replicate CH 0) @ ?xs)"
    using merge_loop_eq [of "replicate CH 0" CH 0 ?xs "[]"] assms by auto
  have "out' @ pack (map (\<lambda>i. c' ! i) [0..<cidx']) = pack ?xs"
    using r(2,3,4) by (simp add: map_nth_take)
  then show ?thesis
    using r(1) by (simp add: merge_files_def read_all_eq [OF assms] Let_def)
qed

subsection \<open>Facts about the file system\<close>

lemma map_of_tmpf_update:
  "map_of (AList.update (tmpf fs) f fs) p = (if p = tmpf fs then Some f else map_of fs p)"
  by (simp add: update_conv')

lemma isfile_tmpf_update:
  "isfile fs p \<Longrightarrow> map_of (AList.update (tmpf fs) f fs) p = map_of fs p"
  using tmpf_fresh [of fs] by (auto simp: isfile_def update_conv')






subsection \<open>Facts about \<open>cutter\<close> and \<open>sorter\<close>\<close>

declare cutter_loop.simps [simp del]

lemma cutter_loop_Nil: "cutter_next N f fs = None \<Longrightarrow> cutter_loop N f fs = ([], fs)"
  by (subst cutter_loop.simps) simp

lemma cutter_loop_Cons:
  "cutter_next N f fs = Some (name, f', fs1) \<Longrightarrow>
   cutter_loop N f fs = (name # fst (cutter_loop N f' fs1), snd (cutter_loop N f' fs1))"
  by (subst cutter_loop.simps) (simp add: case_prod_beta)

lemma cutter_loop_spec:
  assumes "0 < N"
  shows "cutter_loop N f fs = (names, fs') \<Longrightarrow>
         (\<forall>p \<in> set names. map_of fs p = None) \<and> distinct names \<and>
         (\<forall>p. p \<notin> set names \<longrightarrow> map_of fs' p = map_of fs p) \<and>
         (\<forall>p \<in> set names. isfile fs' p) \<and>
         concat (map (\<lambda>p. the (map_of fs' p)) names) = f \<and>
         (\<forall>i. Suc i < length names \<longrightarrow> length (the (map_of fs' (names ! i))) = N * 4) \<and>
         (names \<noteq> [] \<longrightarrow> 0 < length (the (map_of fs' (last names))) \<and>
                          length (the (map_of fs' (last names))) \<le> N * 4) \<and>
         (names = [] \<longleftrightarrow> f = [])"
proof (induction f arbitrary: fs names fs' rule: length_induct)
  case (1 f)
  show ?case
  proof (cases "cutter_next N f fs")
    case None
    then have "f = []"
      using assms by (auto simp: cutter_next_def Let_def split: if_splits)
    moreover have "names = []" "fs' = fs"
      using cutter_loop_Nil [OF None] 1(2) by simp_all
    ultimately show ?thesis by simp
  next
    case (Some r)
    then obtain name f1 fs1 where r: "cutter_next N f fs = Some (name, f1, fs1)"
      by (cases r) auto
    then have name: "name = tmpf fs" and f1: "f1 = drop (N * 4) f"
      and fs1: "fs1 = AList.update name (take (N * 4) f) fs"
      and ne: "take (N * 4) f \<noteq> []"
      by (auto simp: cutter_next_def Let_def split: if_splits)
    let ?chunk = "take (N * 4) f"
    obtain names1 where n1: "cutter_loop N f1 fs1 = (names1, fs')" and names: "names = name # names1"
      using cutter_loop_Cons [OF r] 1(2) by (cases "cutter_loop N f1 fs1") auto
    have "length f1 < length f"
      using r by (rule cutter_next_shorter)
    then have IH:
      "\<forall>p \<in> set names1. map_of fs1 p = None" "distinct names1"
      "\<forall>p. p \<notin> set names1 \<longrightarrow> map_of fs' p = map_of fs1 p"
      "\<forall>p \<in> set names1. isfile fs' p"
      "concat (map (\<lambda>p. the (map_of fs' p)) names1) = f1"
      "\<forall>i. Suc i < length names1 \<longrightarrow> length (the (map_of fs' (names1 ! i))) = N * 4"
      "names1 \<noteq> [] \<longrightarrow> 0 < length (the (map_of fs' (last names1))) \<and>
                          length (the (map_of fs' (last names1))) \<le> N * 4"
      "names1 = [] \<longleftrightarrow> f1 = []"
      using 1(1) n1 by blast+
    have at_name: "map_of fs1 name = Some ?chunk"
      by (simp add: fs1 update_conv')
    have other: "map_of fs1 p = map_of fs p" if "p \<noteq> name" for p
      using that by (simp add: fs1 update_conv')
    have notin: "name \<notin> set names1"
      using IH(1) at_name by auto
    then have here: "map_of fs' name = Some ?chunk"
      using IH(3) at_name by simp
    have a: "\<forall>p \<in> set names. map_of fs p = None"
    proof
      fix p assume "p \<in> set names"
      then consider "p = name" | "p \<in> set names1" "p \<noteq> name"
        using notin by (auto simp: names)
      then show "map_of fs p = None"
      proof cases
        case 1
        then show ?thesis using tmpf_fresh [of fs] by (simp add: name)
      next
        case 2
        then show ?thesis using IH(1) other [of p] by simp
      qed
    qed
    have b: "distinct names"
      using IH(2) notin by (simp add: names)
    have c: "\<forall>p. p \<notin> set names \<longrightarrow> map_of fs' p = map_of fs p"
      using IH(3) other by (simp add: names)
    have d: "\<forall>p \<in> set names. isfile fs' p"
      using IH(4) here by (simp add: names isfile_def)
    have e: "concat (map (\<lambda>p. the (map_of fs' p)) names) = f"
      using IH(5) here by (simp add: names f1)
    have full: "length ?chunk = N * 4" if "names1 \<noteq> []"
    proof -
      from that have "f1 \<noteq> []" using IH(8) by simp
      then show ?thesis by (auto simp: f1)
    qed
    have g: "\<forall>i. Suc i < length names \<longrightarrow> length (the (map_of fs' (names ! i))) = N * 4"
    proof (intro allI impI)
      fix i assume i: "Suc i < length names"
      show "length (the (map_of fs' (names ! i))) = N * 4"
      proof (cases i)
        case 0
        then have "names1 \<noteq> []" using i by (auto simp: names)
        then show ?thesis using full here 0 by (simp add: names)
      next
        case (Suc j)
        then show ?thesis using i IH(6) by (simp add: names)
      qed
    qed
    have h: "names \<noteq> [] \<longrightarrow> 0 < length (the (map_of fs' (last names))) \<and>
                            length (the (map_of fs' (last names))) \<le> N * 4"
      using IH(7) here ne by (simp add: names)
    have k: "names = [] \<longleftrightarrow> f = []"
      using ne by (auto simp: names)
    show ?thesis
      using a b c d e g h k by blast
  qed
qed


lemma sorter_eq:
  "map_of fs fn = Some f \<Longrightarrow>
   sorter N fn fs = (Inr fn, AList.update fn (pack (sort_key sint (take N (unpack f)))) fs)"
  by (simp add: sorter_def fromfile_def)


subsection \<open>Sorted files\<close>

definition all_sorted :: "filesystem \<Rightarrow> path list \<Rightarrow> bool" where
  "all_sorted fs ps = (\<forall>p \<in> set ps. \<forall>f. map_of fs p = Some f \<longrightarrow> sorted_file f)"

lemma sorted_file_Nil: "sorted_file []"
  by (simp add: sorted_file_def)

lemma sorted_file_pack: "sorted (map sint xs) \<Longrightarrow> sorted_file (pack xs)"
  by (simp add: sorted_file_def length_pack unpack_pack)

lemma sorted_file_sort_key: "sorted_file (pack (sort_key sint a))"
  by (rule sorted_file_pack) (rule sorted_sort_key)

lemma unlink_all_subset:
  "unlink_all l fs = (r, fs') \<Longrightarrow> map_of fs' p = Some f \<Longrightarrow> map_of fs p = Some f"
proof (induction l arbitrary: fs)
  case Nil
  then show ?case by simp
next
  case (Cons fn fns)
  show ?case
  proof (cases "isfile fs fn")
    case True
    then have "unlink_all fns (AList.delete fn fs) = (r, fs')"
      using Cons.prems(1) by (simp add: unlink_def)
    then have "map_of (AList.delete fn fs) p = Some f"
      using Cons.prems(2) by (rule Cons.IH)
    then show ?thesis
      by (simp add: delete_conv' split: if_splits)
  next
    case False
    then show ?thesis
      using Cons.prems by (simp add: unlink_def)
  qed
qed

lemma merger_keeps_sorted:
  assumes "0 < CH" and m: "merger CH l fs = Some (r, fs')" and srt: "all_sorted fs l"
  shows "(\<forall>p f. map_of fs' p = Some f \<longrightarrow> map_of fs p = Some f \<or> sorted_file f) \<and>
         (\<forall>res f. r = Inr res \<longrightarrow> map_of fs' res = Some f \<longrightarrow> sorted_file f)"
proof (cases "length l = 1")
  case True
  then obtain p where l: "l = [p]"
    by (cases l) auto
  then have "r = Inr p" "fs' = fs"
    using m by (simp_all add: merger_def)
  then show ?thesis
    using srt l by (simp add: all_sorted_def)
next
  case False
  let ?name = "tmpf fs"
  let ?fs1 = "AList.update ?name [] fs"
  let ?its = "map (\<lambda>fn. unpack (the (map_of ?fs1 fn))) l"
  let ?out = "pack (heapq_merge ?its)"
  let ?fs2 = "AList.update ?name ?out ?fs1"
  have fs1: "map_of ?fs1 p = Some f \<Longrightarrow> map_of fs p = Some f \<or> sorted_file f" for p f
    by (auto simp: update_conv' sorted_file_Nil split: if_splits)
  show ?thesis
  proof (cases "\<forall>fn \<in> set l. isfile ?fs1 fn")
    case all: True
    have "\<forall>xs \<in> set ?its. sorted (map sint xs)"
    proof
      fix xs assume "xs \<in> set ?its"
      then obtain fn where fn: "fn \<in> set l" "xs = unpack (the (map_of ?fs1 fn))"
        by auto
      then obtain g where g: "map_of ?fs1 fn = Some g"
        using all by (auto simp: isfile_def)
      then have "sorted_file g"
        using fs1 [OF g] srt fn(1) by (auto simp: all_sorted_def)
      then show "sorted (map sint xs)"
        using fn(2) g by (simp add: sorted_file_def)
    qed
    then have out: "sorted_file ?out"
      by (intro sorted_file_pack sorted_heapq_merge)
    have fs2: "map_of ?fs2 p = Some f \<Longrightarrow> map_of fs p = Some f \<or> sorted_file f" for p f
      using out by (auto simp: update_conv' split: if_splits)
    have mf: "merge_files CH l fs = Some (Inr ?name, ?fs2)"
      using all by (simp add: merge_files_eq [OF assms(1)] Let_def)
    obtain e fs3 where u: "unlink_all l ?fs2 = (e, fs3)"
      by (cases "unlink_all l ?fs2") auto
    have fs': "fs' = fs3" and r: "r = Inr ?name \<or> (\<exists>e. r = Inl e)"
      using m False mf u by (auto simp: merger_def split: option.splits)
    have sub: "map_of fs3 p = Some f \<Longrightarrow> map_of ?fs2 p = Some f" for p f
      using u by (rule unlink_all_subset)
    have "map_of fs' p = Some f \<Longrightarrow> map_of fs p = Some f \<or> sorted_file f" for p f
      unfolding fs' using sub fs2 by blast
    moreover have "r = Inr res \<Longrightarrow> map_of fs' res = Some f \<Longrightarrow> sorted_file f" for res f
    proof -
      assume a: "r = Inr res" "map_of fs' res = Some f"
      then have "res = ?name" using r by auto
      moreover have "map_of ?fs2 res = Some f" using a(2) sub fs' by simp
      ultimately show "sorted_file f" using out by (simp add: update_conv')
    qed
    ultimately show ?thesis by blast
  next
    case False
    then have "merge_files CH l fs = Some (Inl IOError, ?fs1)"
      by (simp add: merge_files_eq [OF assms(1)] Let_def)
    then have "r = Inl IOError" "fs' = ?fs1"
      using m \<open>length l \<noteq> 1\<close> by (simp_all add: merger_def)
    then show ?thesis
      using fs1 by blast
  qed
qed

lemma sorter_keeps_sorted:
  assumes "sorter N fn fs = (r, fs')"
  shows "(\<forall>p f. map_of fs' p = Some f \<longrightarrow> map_of fs p = Some f \<or> sorted_file f) \<and>
         (\<forall>p. isfile fs p \<longrightarrow> isfile fs' p) \<and>
         (\<forall>res. r = Inr res \<longrightarrow> (\<exists>f. map_of fs' res = Some f \<and> sorted_file f))"
proof (cases "map_of fs fn")
  case None
  then show ?thesis
    using assms by (auto simp: sorter_def)
next
  case (Some f)
  then show ?thesis
    using assms sorted_file_sort_key
    by (auto simp: sorter_eq [OF Some] update_conv' isfile_def split: if_splits)
qed

lemma rename_ok:
  assumes "rename src tgt fs = (None, fs')"
  shows "\<exists>f. map_of fs src = Some f \<and> map_of fs' tgt = Some f"
proof -
  let ?fs1 = "if isfile fs tgt then AList.delete tgt fs else fs"
  from assms obtain f where f: "map_of ?fs1 src = Some f"
    and fs': "fs' = AList.update tgt f (AList.delete src ?fs1)"
    by (auto simp: rename_def Let_def split: option.splits)
  have "map_of fs src = Some f"
    using f by (auto simp: delete_conv' split: if_splits)
  moreover have "map_of fs' tgt = Some f"
    by (simp add: fs' update_conv')
  ultimately show ?thesis by blast
qed

subsection \<open>An invariant of \<open>sort\<close>: every file the queue or a merge task names is sorted\<close>

definition sorting_phase :: "state \<Rightarrow> bool" where
  "sorting_phase s =
     ((\<forall>t \<in> set (in_flight s). \<exists>fn. t = Sort fn) \<and>
      (\<forall>p \<in> set (sorted_fn_list s). \<exists>f. map_of (files s) p = Some f \<and> sorted_file f))"

definition merging_phase :: "state \<Rightarrow> bool" where
  "merging_phase s =
     ((\<forall>t \<in> set (in_flight s). \<exists>l. t = Merge l \<and> all_sorted (files s) l) \<and>
      all_sorted (files s) (sorted_fn_list s))"

definition sort_inv :: "path \<Rightarrow> state \<Rightarrow> bool" where
  "sort_inv output s =
     (case pc s of
        Start \<Rightarrow> sorting_phase s
      | Cutting f \<Rightarrow> sorting_phase s
      | SortJoin \<Rightarrow> sorting_phase s
      | LoopTop \<Rightarrow> merging_phase s
      | Taking \<Rightarrow> merging_phase s
      | Taken l \<Rightarrow> merging_phase s \<and> all_sorted (files s) l
      | Yielded \<Rightarrow> merging_phase s
      | Sliced l \<Rightarrow> merging_phase s \<and> all_sorted (files s) l
      | Barrier \<Rightarrow> merging_phase s
      | Rename \<Rightarrow> merging_phase s \<and> in_flight s = []
      | Done \<Rightarrow> in_flight s = [] \<and> (\<exists>f. map_of (files s) output = Some f \<and> sorted_file f)
      | Exit1 \<Rightarrow> True
      | Raised e \<Rightarrow> True)"

lemma all_sorted_mono:
  "all_sorted fs l \<Longrightarrow>
   (\<forall>p f. map_of fs' p = Some f \<longrightarrow> map_of fs p = Some f \<or> sorted_file f) \<Longrightarrow>
   all_sorted fs' l"
  unfolding all_sorted_def by blast

lemma all_sorted_take: "all_sorted fs l \<Longrightarrow> all_sorted fs (take n l)"
  unfolding all_sorted_def by (auto dest: in_set_takeD)

lemma all_sorted_drop: "all_sorted fs l \<Longrightarrow> all_sorted fs (drop n l)"
  unfolding all_sorted_def by (auto dest: in_set_dropD)

lemma sorting_phase_all_sorted:
  "sorting_phase s \<Longrightarrow> in_flight s = [] \<Longrightarrow> merging_phase s"
  by (auto simp: sorting_phase_def merging_phase_def all_sorted_def)

lemma in_flight_rest: "t \<in> set (take i l @ drop (Suc i) l) \<Longrightarrow> t \<in> set l"
  by (auto dest: in_set_takeD in_set_dropD)

lemma sort_inv_coordinator:
  assumes "sort_inv output s" and "coordinator N M input output s = Some s'"
  shows "sort_inv output s'"
proof (cases "pc s")
  case Start
  then show ?thesis
    using assms
    by (auto simp: coordinator_def sort_inv_def sorting_phase_def split: option.splits)
next
  case (Cutting f)
  show ?thesis
  proof (cases "cutter_next N f (files s)")
    case None
    then show ?thesis
      using assms Cutting by (auto simp: coordinator_def sort_inv_def sorting_phase_def)
  next
    case (Some r)
    then obtain fn f' fs' where r: "cutter_next N f (files s) = Some (fn, f', fs')"
      by (cases r) auto
    then have fs': "fs' = AList.update (tmpf (files s)) (take (N * 4) f) (files s)"
      by (auto simp: cutter_next_def Let_def split: if_splits)
    have s': "s' = s\<lparr>files := fs', in_flight := in_flight s @ [Sort fn], pc := Cutting f'\<rparr>"
      using assms(2) Cutting r by (simp add: coordinator_def)
    have keep: "map_of fs' p = Some g" if "map_of (files s) p = Some g" for p g
      using that isfile_tmpf_update [of "files s" p] by (simp add: fs' isfile_def)
    show ?thesis
      using assms(1) Cutting keep
      by (fastforce simp: s' sort_inv_def sorting_phase_def)
  qed
next
  case SortJoin
  then show ?thesis
    using assms sorting_phase_all_sorted [of s]
    by (auto simp: coordinator_def sort_inv_def merging_phase_def split: if_splits)
next
  case LoopTop
  then show ?thesis
    using assms
    by (auto simp: coordinator_def sort_inv_def merging_phase_def split: if_splits)
next
  case Taking
  then show ?thesis
    using assms
    by (auto simp: coordinator_def sort_inv_def merging_phase_def all_sorted_take)
next
  case (Taken l)
  then show ?thesis
    using assms
    by (auto simp: coordinator_def sort_inv_def merging_phase_def)
next
  case Yielded
  then show ?thesis
    using assms
    by (auto simp: coordinator_def sort_inv_def merging_phase_def all_sorted_drop)
next
  case (Sliced l)
  then show ?thesis
    using assms
    by (auto simp: coordinator_def sort_inv_def merging_phase_def)
next
  case Barrier
  then show ?thesis
    using assms
    by (auto simp: coordinator_def sort_inv_def merging_phase_def split: if_splits)
next
  case Rename
  show ?thesis
  proof (cases "sorted_fn_list s")
    case Nil
    then show ?thesis
      using assms Rename by (auto simp: coordinator_def sort_inv_def)
  next
    case (Cons src rest)
    obtain e fs' where rn: "rename src output (files s) = (e, fs')"
      by (cases "rename src output (files s)") auto
    show ?thesis
    proof (cases e)
      case None
      then obtain f where f: "map_of (files s) src = Some f" "map_of fs' output = Some f"
        using rename_ok rn by blast
      have "sorted_file f"
        using assms(1) Rename Cons f(1)
        by (auto simp: sort_inv_def merging_phase_def all_sorted_def)
      moreover have "s' = s\<lparr>files := fs', pc := Done\<rparr>"
        using assms(2) Rename Cons rn None by (simp add: coordinator_def)
      ultimately show ?thesis
        using assms(1) Rename f(2) by (simp add: sort_inv_def)
    next
      case (Some err)
      then have "s' = s\<lparr>files := fs', pc := Exit1\<rparr>"
        using assms(2) Rename Cons rn by (simp add: coordinator_def)
      then show ?thesis
        by (simp add: sort_inv_def)
    qed
  qed
next
  case Done
  then show ?thesis using assms by (simp add: coordinator_def)
next
  case Exit1
  then show ?thesis using assms by (simp add: coordinator_def)
next
  case (Raised e)
  then show ?thesis using assms by (simp add: coordinator_def)
qed

lemma completion_cases:
  assumes "completion CH N i s = Some s'"
  obtains r fs' where "i < length (in_flight s)"
    "run_task CH N (in_flight s ! i) (files s) = Some (r, fs')"
    "pc s' = pc s" "files s' = fs'"
    "in_flight s' = take i (in_flight s) @ drop (Suc i) (in_flight s)"
    "sorted_fn_list s' = (case r of Inl e \<Rightarrow> sorted_fn_list s | Inr fn \<Rightarrow> sorted_fn_list s @ [fn])"
  using assms
  by (auto simp: completion_def cb_def Let_def split: if_splits option.splits sum.splits)

lemma sorting_phase_completion:
  assumes "sorting_phase s" and "completion CH N i s = Some s'"
  shows "sorting_phase s'"
proof -
  from assms(2) obtain r fs' where c: "i < length (in_flight s)"
    "run_task CH N (in_flight s ! i) (files s) = Some (r, fs')"
    "files s' = fs'"
    "in_flight s' = take i (in_flight s) @ drop (Suc i) (in_flight s)"
    "sorted_fn_list s' = (case r of Inl e \<Rightarrow> sorted_fn_list s | Inr fn \<Rightarrow> sorted_fn_list s @ [fn])"
    by (rule completion_cases)
  have "in_flight s ! i \<in> set (in_flight s)"
    using c(1) by simp
  then obtain fn where fn: "in_flight s ! i = Sort fn"
    using assms(1) by (auto simp: sorting_phase_def)
  then have srt: "sorter N fn (files s) = (r, fs')"
    using c(2) by simp
  note k = sorter_keeps_sorted [OF srt]
  have sub: "set (in_flight s') \<subseteq> set (in_flight s)"
    unfolding c(4) using in_flight_rest by fast
  have tasks: "\<forall>t \<in> set (in_flight s'). \<exists>fn. t = Sort fn"
    using assms(1) sub by (auto simp: sorting_phase_def)
  have old: "\<exists>f. map_of fs' p = Some f \<and> sorted_file f" if "p \<in> set (sorted_fn_list s)" for p
  proof -
    from that obtain f where f: "map_of (files s) p = Some f" "sorted_file f"
      using assms(1) by (auto simp: sorting_phase_def)
    then have "isfile fs' p"
      using k by (simp add: isfile_def)
    then obtain g where g: "map_of fs' p = Some g"
      by (auto simp: isfile_def)
    have "map_of (files s) p = Some g \<or> sorted_file g"
      using k g by blast
    then have "sorted_file g"
      using f by auto
    with g show ?thesis by blast
  qed
  have "\<forall>p \<in> set (sorted_fn_list s'). \<exists>f. map_of (files s') p = Some f \<and> sorted_file f"
  proof (cases r)
    case (Inl e)
    then show ?thesis using old c(3,5) by simp
  next
    case (Inr res)
    then have "\<exists>f. map_of fs' res = Some f \<and> sorted_file f"
      using k by blast
    then show ?thesis using old c(3,5) Inr by auto
  qed
  with tasks show ?thesis
    by (simp add: sorting_phase_def)
qed

lemma merging_phase_completion:
  assumes "0 < CH" and "merging_phase s" and "completion CH N i s = Some s'"
  shows "merging_phase s'"
proof -
  from assms(3) obtain r fs' where c: "i < length (in_flight s)"
    "run_task CH N (in_flight s ! i) (files s) = Some (r, fs')"
    "files s' = fs'"
    "in_flight s' = take i (in_flight s) @ drop (Suc i) (in_flight s)"
    "sorted_fn_list s' = (case r of Inl e \<Rightarrow> sorted_fn_list s | Inr fn \<Rightarrow> sorted_fn_list s @ [fn])"
    by (rule completion_cases)
  have "in_flight s ! i \<in> set (in_flight s)"
    using c(1) by simp
  then obtain l where l: "in_flight s ! i = Merge l" "all_sorted (files s) l"
    using assms(2) by (auto simp: merging_phase_def)
  then have m: "merger CH l (files s) = Some (r, fs')"
    using c(2) by simp
  note k = merger_keeps_sorted [OF assms(1) m l(2)]
  then have mono: "all_sorted (files s) ps \<Longrightarrow> all_sorted fs' ps" for ps
    using all_sorted_mono by blast
  have sub: "set (in_flight s') \<subseteq> set (in_flight s)"
    unfolding c(4) using in_flight_rest by fast
  have tasks: "\<forall>t \<in> set (in_flight s'). \<exists>l. t = Merge l \<and> all_sorted (files s') l"
  proof
    fix t assume "t \<in> set (in_flight s')"
    then have "t \<in> set (in_flight s)"
      using sub by blast
    then obtain l where "t = Merge l" "all_sorted (files s) l"
      using assms(2) by (auto simp: merging_phase_def)
    then show "\<exists>l. t = Merge l \<and> all_sorted (files s') l"
      using mono c(3) by auto
  qed
  have old: "all_sorted fs' (sorted_fn_list s)"
    using assms(2) mono by (simp add: merging_phase_def)
  have "all_sorted (files s') (sorted_fn_list s')"
  proof (cases r)
    case (Inl e)
    then show ?thesis using old c(3,5) by simp
  next
    case (Inr res)
    then have "\<forall>f. map_of fs' res = Some f \<longrightarrow> sorted_file f"
      using k by blast
    then show ?thesis using old c(3,5) Inr by (auto simp: all_sorted_def)
  qed
  with tasks show ?thesis
    by (simp add: merging_phase_def)
qed

lemma all_sorted_completion:
  assumes "0 < CH" and "merging_phase s" and "completion CH N i s = Some s'"
    and "all_sorted (files s) ps"
  shows "all_sorted (files s') ps"
proof -
  from assms(3) obtain r fs' where c: "i < length (in_flight s)"
    "run_task CH N (in_flight s ! i) (files s) = Some (r, fs')"
    "files s' = fs'"
    by (rule completion_cases)
  have "in_flight s ! i \<in> set (in_flight s)"
    using c(1) by simp
  then obtain l where l: "in_flight s ! i = Merge l" "all_sorted (files s) l"
    using assms(2) by (auto simp: merging_phase_def)
  then have m: "merger CH l (files s) = Some (r, fs')"
    using c(2) by simp
  show ?thesis
    using merger_keeps_sorted [OF assms(1) m l(2)] all_sorted_mono [OF assms(4)] c(3) by blast
qed

lemma sort_inv_completion:
  assumes "0 < CH" and "sort_inv output s" and "completion CH N i s = Some s'"
  shows "sort_inv output s'"
proof -
  from assms(3) have pc: "pc s' = pc s" and busy: "in_flight s \<noteq> []"
    by (auto elim!: completion_cases)
  show ?thesis
    using assms(2) busy sorting_phase_completion [OF _ assms(3)]
      merging_phase_completion [OF assms(1) _ assms(3)]
      all_sorted_completion [OF assms(1) _ assms(3)]
    by (cases "pc s") (auto simp: sort_inv_def pc)
qed

lemma sort_inv_step:
  "0 < CH \<Longrightarrow> sort_inv output s \<Longrightarrow> step CH N M input output e s = Some s' \<Longrightarrow>
   sort_inv output s'"
  by (cases e) (auto intro: sort_inv_coordinator sort_inv_completion)

lemma sort_inv_run:
  "0 < CH \<Longrightarrow> sort_inv output s \<Longrightarrow> run CH N M input output evs s = Some s' \<Longrightarrow>
   sort_inv output s'"
proof (induction evs arbitrary: s)
  case Nil
  then show ?case by simp
next
  case (Cons e es)
  then obtain s1 where s1: "step CH N M input output e s = Some s1"
    "run CH N M input output es s1 = Some s'"
    by (auto split: option.splits)
  then show ?case
    using Cons.IH Cons.prems(1,2) sort_inv_step by blast
qed

lemma sort_inv_start: "sort_inv output (sort_start fs)"
  by (simp add: sort_inv_def sort_start_def sorting_phase_def)


subsection \<open>The coordinator with an empty queue and an idle pool\<close>

definition spinning :: "state \<Rightarrow> bool" where
  "spinning s = (sorted_fn_list s = [] \<and> in_flight s = [] \<and> (pc s = LoopTop \<or> pc s = Barrier))"

lemma spinning_step:
  assumes "spinning s" and "step CH N M input output e s = Some s'"
  shows "spinning s' \<and> files s' = files s"
proof (cases e)
  case Coordinator
  then show ?thesis
    using assms by (auto simp: spinning_def coordinator_def split: if_splits)
next
  case (Completion i)
  then show ?thesis
    using assms by (simp add: spinning_def completion_def)
qed

lemma spinning_run:
  "spinning s \<Longrightarrow> run CH N M input output evs s = Some s' \<Longrightarrow>
   spinning s' \<and> files s' = files s"
proof (induction evs arbitrary: s)
  case Nil
  then show ?case by simp
next
  case (Cons e es)
  then obtain s1 where s1: "step CH N M input output e s = Some s1"
    "run CH N M input output es s1 = Some s'"
    by (auto split: option.splits)
  have "spinning s1 \<and> files s1 = files s"
    using Cons.prems(1) s1(1) by (rule spinning_step)
  then show ?case
    using Cons.IH [OF _ s1(2)] by simp
qed

lemma spinning_goes_on:
  "spinning s \<Longrightarrow> \<exists>s'. coordinator N M input output s = Some s'"
  by (auto simp: spinning_def coordinator_def)

lemma run_append:
  "run CH N M input output (es @ es') s =
     (case run CH N M input output es s of
        None \<Rightarrow> None
      | Some s' \<Rightarrow> run CH N M input output es' s')"
  by (induction es arbitrary: s) (auto split: option.splits)


subsection \<open>Running a schedule\<close>

lemma merge_files_run:
  "0 < CH \<Longrightarrow>
   merge_files CH fn_list fs =
     (if \<forall>fn \<in> set fn_list. isfile (AList.update (tmpf fs) [] fs) fn
      then Some (Inr (tmpf fs),
                 AList.update (tmpf fs)
                   (pack (heapq_merge
                      (map (\<lambda>fn. unpack (the (map_of (AList.update (tmpf fs) [] fs) fn))) fn_list)))
                   (AList.update (tmpf fs) [] fs))
      else Some (Inl IOError, AList.update (tmpf fs) [] fs))"
  by (simp add: merge_files_eq Let_def)

lemmas exec_simps =
  coordinator_def completion_def cutter_next_def sorter_def fromfile_def merger_def
  merge_files_run rename_def cb_def sort_start_def merge_tasks_start_def
  tmpf_def TMP_DIR_def isfile_def unlink_def
  Let_def heapq_merge.simps least_head_def pack_def int_bytes_def bytes_int_def
  INT_PER_CHUNK_def INT_PER_FILE_def MERGES_def

lemma replicate_numeral: "replicate (numeral k) x = x # replicate (pred_numeral k) x"
  by (simp add: numeral_eq_Suc)

subsection \<open>A run of \<open>sort\<close> that returns\<close>

lemma unlink_all_ok:
  "distinct l \<Longrightarrow> \<forall>p \<in> set l. isfile fs p \<Longrightarrow>
   \<exists>fs'. unlink_all l fs = (None, fs') \<and>
         (\<forall>p. map_of fs' p = (if p \<in> set l then None else map_of fs p))"
proof (induction l arbitrary: fs)
  case Nil
  then show ?case by simp
next
  case (Cons q l)
  have q: "isfile fs q"
    using Cons.prems(2) by simp
  have "\<forall>p \<in> set l. isfile (AList.delete q fs) p"
    using Cons.prems by (auto simp: isfile_def delete_conv')
  then obtain fs' where fs': "unlink_all l (AList.delete q fs) = (None, fs')"
    "\<forall>p. map_of fs' p = (if p \<in> set l then None else map_of (AList.delete q fs) p)"
    using Cons.IH [of "AList.delete q fs"] Cons.prems(1) by auto
  have "unlink_all (q # l) fs = (None, fs')"
    using q fs'(1) by (simp add: unlink_def)
  moreover have "\<forall>p. map_of fs' p = (if p \<in> set (q # l) then None else map_of fs p)"
    using fs'(2) by (auto simp: delete_conv')
  ultimately show ?case by blast
qed

lemma merger_ok:
  assumes "0 < CH" and "distinct l" and "\<forall>p \<in> set l. isfile fs p" and "length l \<noteq> 1"
  shows "\<exists>fs'. merger CH l fs = Some (Inr (tmpf fs), fs') \<and> isfile fs' (tmpf fs) \<and>
           (\<forall>p. p \<notin> set l \<longrightarrow> p \<noteq> tmpf fs \<longrightarrow> map_of fs' p = map_of fs p)"
proof -
  let ?fs1 = "AList.update (tmpf fs) [] fs"
  let ?out = "pack (heapq_merge (map (\<lambda>fn. unpack (the (map_of ?fs1 fn))) l))"
  let ?fs2 = "AList.update (tmpf fs) ?out ?fs1"
  have notin: "tmpf fs \<notin> set l"
    using assms(3) tmpf_fresh [of fs] by (auto simp: isfile_def)
  have all1: "\<forall>p \<in> set l. isfile ?fs1 p"
    using assms(3) by (simp add: isfile_def update_conv')
  then have mf: "merge_files CH l fs = Some (Inr (tmpf fs), ?fs2)"
    by (simp add: merge_files_eq [OF assms(1)] Let_def)
  have "\<forall>p \<in> set l. isfile ?fs2 p"
    using assms(3) by (simp add: isfile_def update_conv')
  then obtain fs' where u: "unlink_all l ?fs2 = (None, fs')"
    "\<forall>p. map_of fs' p = (if p \<in> set l then None else map_of ?fs2 p)"
    using unlink_all_ok [OF assms(2)] by blast
  have "merger CH l fs = Some (Inr (tmpf fs), fs')"
    using assms(4) mf u(1) by (simp add: merger_def)
  moreover have "isfile fs' (tmpf fs)"
    using u(2) notin by (simp add: isfile_def update_conv')
  moreover have "\<forall>p. p \<notin> set l \<longrightarrow> p \<noteq> tmpf fs \<longrightarrow> map_of fs' p = map_of fs p"
    using u(2) by (simp add: update_conv')
  ultimately show ?thesis by blast
qed

lemma rename_succeeds:
  "isfile fs src \<Longrightarrow> src \<noteq> tgt \<Longrightarrow> \<exists>fs'. rename src tgt fs = (None, fs')"
  by (auto simp: rename_def isfile_def Let_def delete_conv')

definition ready :: "path \<Rightarrow> state \<Rightarrow> bool" where
  "ready output s =
     (pc s = LoopTop \<and> in_flight s = [] \<and> sorted_fn_list s \<noteq> [] \<and>
      distinct (sorted_fn_list s) \<and>
      (\<forall>p \<in> set (sorted_fn_list s). isfile (files s) p \<and> p \<noteq> output))"

lemma ready_one_returns:
  assumes "ready output s" and "length (sorted_fn_list s) = 1"
  shows "\<exists>s'. run CH N M input output [Coordinator, Coordinator, Coordinator] s = Some s' \<and>
              pc s' = Done"
proof -
  from assms obtain src where l: "sorted_fn_list s = [src]"
    by (cases "sorted_fn_list s") auto
  then have "isfile (files s) src" "src \<noteq> output"
    using assms(1) by (simp_all add: ready_def)
  then obtain fs' where "rename src output (files s) = (None, fs')"
    using rename_succeeds by blast
  then show ?thesis
    using assms(1) l by (simp add: ready_def coordinator_def)
qed

lemma ready_merge_one:
  assumes "0 < CH" and "2 \<le> M" and "\<forall>fs'. tmpf fs' \<noteq> output"
    and "ready output s" and "1 < length (sorted_fn_list s)"
  shows "\<exists>s'. run CH N M input output
                [Coordinator, Coordinator, Coordinator, Coordinator, Coordinator, Completion 0] s
              = Some s' \<and>
              ready output s' \<and> length (sorted_fn_list s') < length (sorted_fn_list s)"
proof -
  let ?L = "sorted_fn_list s"
  let ?l = "take M ?L"
  let ?fs = "files s"
  have r: "pc s = LoopTop" "in_flight s = []" "distinct ?L"
    "\<forall>p \<in> set ?L. isfile ?fs p \<and> p \<noteq> output"
    using assms(4) by (simp_all add: ready_def)
  have dl: "distinct ?l"
    using r(3) by simp
  have el: "\<forall>p \<in> set ?l. isfile ?fs p"
    using r(4) by (auto dest: in_set_takeD)
  have len: "length ?l \<noteq> 1"
    using assms(2,5) by simp
  obtain fs' where m: "merger CH ?l ?fs = Some (Inr (tmpf ?fs), fs')" "isfile fs' (tmpf ?fs)"
    "\<forall>p. p \<notin> set ?l \<longrightarrow> p \<noteq> tmpf ?fs \<longrightarrow> map_of fs' p = map_of ?fs p"
    using merger_ok [OF assms(1) dl el len] by blast
  let ?s' = "s\<lparr>files := fs', in_flight := [], sorted_fn_list := drop M ?L @ [tmpf ?fs],
               pc := LoopTop\<rparr>"
  have run: "run CH N M input output
         [Coordinator, Coordinator, Coordinator, Coordinator, Coordinator, Completion 0] s
       = Some ?s'"
    using r(1,2) assms(5) m(1) by (simp add: coordinator_def completion_def cb_def)
  have fresh: "tmpf ?fs \<notin> set ?L"
    using r(4) tmpf_fresh [of ?fs] by (auto simp: isfile_def)
  have disj: "p \<notin> set ?l" if "p \<in> set (drop M ?L)" for p
    using that r(3) set_take_disj_set_drop_if_distinct [of ?L M M] by auto
  have keep: "isfile fs' p \<and> p \<noteq> output" if "p \<in> set (drop M ?L)" for p
  proof -
    have "p \<in> set ?L" using that by (rule in_set_dropD)
    then have "isfile ?fs p" "p \<noteq> output" "p \<noteq> tmpf ?fs"
      using r(4) fresh by auto
    then show ?thesis
      using m(3) disj [OF that] by (simp add: isfile_def)
  qed
  have "distinct (drop M ?L @ [tmpf ?fs])"
    using r(3) fresh by (auto dest: in_set_dropD)
  then have "ready output ?s'"
    using keep m(2) assms(3) by (auto simp: ready_def)
  moreover have "length (sorted_fn_list ?s') < length ?L"
    using assms(2,5) by simp
  ultimately show ?thesis
    using run by blast
qed

lemma ready_returns:
  assumes "0 < CH" and "2 \<le> M" and "\<forall>fs'. tmpf fs' \<noteq> output"
  shows "ready output s \<Longrightarrow> \<exists>evs s'. run CH N M input output evs s = Some s' \<and> pc s' = Done"
proof (induction "length (sorted_fn_list s)" arbitrary: s rule: less_induct)
  case less
  show ?case
  proof (cases "1 < length (sorted_fn_list s)")
    case True
    then obtain s1 where s1: "run CH N M input output
         [Coordinator, Coordinator, Coordinator, Coordinator, Coordinator, Completion 0] s
       = Some s1" "ready output s1" "length (sorted_fn_list s1) < length (sorted_fn_list s)"
      using ready_merge_one [OF assms less.prems] by blast
    then obtain evs s' where "run CH N M input output evs s1 = Some s'" "pc s' = Done"
      using less.hyps by blast
    then have "run CH N M input output
         ([Coordinator, Coordinator, Coordinator, Coordinator, Coordinator, Completion 0] @ evs) s
       = Some s'"
      using s1(1) by (simp only: run_append option.case)
    then show ?thesis
      using \<open>pc s' = Done\<close> by blast
  next
    case False
    then have "length (sorted_fn_list s) = 1"
      using less.prems by (cases "sorted_fn_list s") (auto simp: ready_def)
    then show ?thesis
      using ready_one_returns [OF less.prems] by blast
  qed
qed

lemma cutter_loop_names:
  "cutter_loop N f fs = (names, fs') \<Longrightarrow> p \<in> set names \<Longrightarrow> \<exists>fs0. p = tmpf fs0"
proof (induction f arbitrary: fs names rule: length_induct)
  case (1 f)
  show ?case
  proof (cases "cutter_next N f fs")
    case None
    then show ?thesis
      using cutter_loop_Nil [OF None] 1(2,3) by simp
  next
    case (Some r)
    then obtain name f1 fs1 where r: "cutter_next N f fs = Some (name, f1, fs1)"
      by (cases r) auto
    then have name: "name = tmpf fs"
      by (auto simp: cutter_next_def Let_def split: if_splits)
    obtain names1 where n1: "cutter_loop N f1 fs1 = (names1, fs')" and names: "names = name # names1"
      using cutter_loop_Cons [OF r] 1(2) by (cases "cutter_loop N f1 fs1") auto
    have "length f1 < length f"
      using r by (rule cutter_next_shorter)
    then have "p \<in> set names1 \<Longrightarrow> \<exists>fs0. p = tmpf fs0"
      using 1(1) n1 by blast
    then show ?thesis
      using 1(3) names name by auto
  qed
qed

lemma cutting_run:
  "pc s = Cutting f \<Longrightarrow>
   \<exists>evs. run CH N M input output evs s =
            Some (s\<lparr>files := snd (cutter_loop N f (files s)),
                    in_flight := in_flight s @ map Sort (fst (cutter_loop N f (files s))),
                    pc := SortJoin\<rparr>)"
proof (induction f arbitrary: s rule: length_induct)
  case (1 f)
  show ?case
  proof (cases "cutter_next N f (files s)")
    case None
    have "run CH N M input output [Coordinator] s = Some (s\<lparr>pc := SortJoin\<rparr>)"
      using 1(2) None by (simp add: coordinator_def)
    moreover have "s\<lparr>files := snd (cutter_loop N f (files s)),
                    in_flight := in_flight s @ map Sort (fst (cutter_loop N f (files s))),
                    pc := SortJoin\<rparr> = s\<lparr>pc := SortJoin\<rparr>"
      by (simp add: cutter_loop_Nil [OF None])
    ultimately show ?thesis
      by metis
  next
    case (Some r)
    then obtain name f1 fs1 where r: "cutter_next N f (files s) = Some (name, f1, fs1)"
      by (cases r) auto
    let ?s1 = "s\<lparr>files := fs1, in_flight := in_flight s @ [Sort name], pc := Cutting f1\<rparr>"
    have st: "run CH N M input output [Coordinator] s = Some ?s1"
      using 1(2) r by (simp add: coordinator_def)
    have "length f1 < length f"
      using r by (rule cutter_next_shorter)
    moreover have "pc ?s1 = Cutting f1"
      by simp
    ultimately obtain evs where evs: "run CH N M input output evs ?s1 =
            Some (?s1\<lparr>files := snd (cutter_loop N f1 (files ?s1)),
                    in_flight := in_flight ?s1 @ map Sort (fst (cutter_loop N f1 (files ?s1))),
                    pc := SortJoin\<rparr>)"
      using 1(1) by blast
    have "run CH N M input output ([Coordinator] @ evs) s =
            Some (?s1\<lparr>files := snd (cutter_loop N f1 (files ?s1)),
                    in_flight := in_flight ?s1 @ map Sort (fst (cutter_loop N f1 (files ?s1))),
                    pc := SortJoin\<rparr>)"
      using st evs by (simp only: run_append option.case)
    then show ?thesis
      using cutter_loop_Cons [OF r] by (auto intro!: exI [of _ "[Coordinator] @ evs"])
  qed
qed

lemma sort_all_run:
  "in_flight s = map Sort names \<Longrightarrow> \<forall>p \<in> set names. isfile (files s) p \<Longrightarrow>
   \<exists>evs s'. run CH N M input output evs s = Some s' \<and> pc s' = pc s \<and> in_flight s' = [] \<and>
            sorted_fn_list s' = sorted_fn_list s @ names \<and>
            (\<forall>p. isfile (files s') p = isfile (files s) p)"
proof (induction names arbitrary: s)
  case Nil
  have "run CH N M input output [] s = Some s"
    by simp
  then show ?case
    using Nil by fastforce
next
  case (Cons q names)
  obtain f where f: "map_of (files s) q = Some f"
    using Cons.prems(2) by (auto simp: isfile_def)
  let ?fs1 = "AList.update q (pack (sort_key sint (take N (unpack f)))) (files s)"
  let ?s1 = "s\<lparr>files := ?fs1, in_flight := map Sort names,
               sorted_fn_list := sorted_fn_list s @ [q]\<rparr>"
  have st: "run CH N M input output [Completion 0] s = Some ?s1"
    using Cons.prems(1) f by (simp add: completion_def sorter_eq cb_def)
  have same: "isfile ?fs1 p = isfile (files s) p" for p
    using f by (auto simp: isfile_def update_conv')
  have "in_flight ?s1 = map Sort names" "\<forall>p \<in> set names. isfile (files ?s1) p"
    using Cons.prems(2) same by simp_all
  then obtain evs s' where r: "run CH N M input output evs ?s1 = Some s'" "pc s' = pc ?s1"
    "in_flight s' = []" "sorted_fn_list s' = sorted_fn_list ?s1 @ names"
    "\<forall>p. isfile (files s') p = isfile (files ?s1) p"
    using Cons.IH [of ?s1] by auto
  have "run CH N M input output ([Completion 0] @ evs) s = Some s'"
    using st r(1) by (simp only: run_append option.case)
  moreover have "\<forall>p. isfile (files s') p = isfile (files s) p"
    using r(5) same by simp
  ultimately show ?case
    using r(2,3,4) by (intro exI [of _ "[Completion 0] @ evs"] exI [of _ s']) simp
qed

lemma sort_returns:
  assumes "0 < CH" and "0 < N" and "2 \<le> M" and "map_of fs input = Some f" and "f \<noteq> []"
    and "\<forall>fs'. tmpf fs' \<noteq> output"
  shows "\<exists>evs s. run CH N M input output evs (sort_start fs) = Some s \<and> pc s = Done"
proof -
  let ?s0 = "sort_start fs"
  let ?s1 = "?s0\<lparr>pc := Cutting f\<rparr>"
  obtain names fs1 where loop: "cutter_loop N f fs = (names, fs1)"
    by (cases "cutter_loop N f fs") auto
  note spec = cutter_loop_spec [OF assms(2) loop]
  have r1: "run CH N M input output [Coordinator] ?s0 = Some ?s1"
    using assms(4) by (simp add: coordinator_def sort_start_def)
  let ?s2 = "?s1\<lparr>files := fs1, in_flight := map Sort names, pc := SortJoin\<rparr>"
  have c1: "pc ?s1 = Cutting f"
    by simp
  have "\<exists>evs. run CH N M input output evs ?s1 =
            Some (?s1\<lparr>files := snd (cutter_loop N f (files ?s1)),
                    in_flight := in_flight ?s1 @ map Sort (fst (cutter_loop N f (files ?s1))),
                    pc := SortJoin\<rparr>)"
    by (rule cutting_run [OF c1])
  then obtain evs2 where r2: "run CH N M input output evs2 ?s1 = Some ?s2"
    using loop by (auto simp: sort_start_def)
  have c2: "in_flight ?s2 = map Sort names" "\<forall>p \<in> set names. isfile (files ?s2) p"
    using spec by simp_all
  have "\<exists>evs s'. run CH N M input output evs ?s2 = Some s' \<and> pc s' = pc ?s2 \<and>
            in_flight s' = [] \<and> sorted_fn_list s' = sorted_fn_list ?s2 @ names \<and>
            (\<forall>p. isfile (files s') p = isfile (files ?s2) p)"
    by (rule sort_all_run [OF c2])
  then obtain evs3 s3 where r3: "run CH N M input output evs3 ?s2 = Some s3" "pc s3 = pc ?s2"
    "in_flight s3 = []" "sorted_fn_list s3 = sorted_fn_list ?s2 @ names"
    "\<forall>p. isfile (files s3) p = isfile (files ?s2) p"
    by blast
  let ?s4 = "s3\<lparr>pc := LoopTop\<rparr>"
  have r4: "run CH N M input output [Coordinator] s3 = Some ?s4"
    using r3(2,3) by (simp add: coordinator_def)
  have l4: "sorted_fn_list ?s4 = names"
    using r3(4) by (simp add: sort_start_def)
  have "names \<noteq> []"
    using spec assms(5) by simp
  moreover have "\<forall>p \<in> set names. p \<noteq> output"
    using cutter_loop_names [OF loop] assms(6) by blast
  moreover have "\<forall>p \<in> set names. isfile (files ?s4) p"
    using spec r3(5) by simp
  ultimately have "ready output ?s4"
    using spec r3(3) l4 by (simp add: ready_def)
  then obtain evs5 s5 where r5: "run CH N M input output evs5 ?s4 = Some s5" "pc s5 = Done"
    using ready_returns [OF assms(1,3,6)] by blast
  have "run CH N M input output ([Coordinator] @ evs2 @ evs3 @ [Coordinator] @ evs5) ?s0 = Some s5"
    using r1 r2 r3(1) r4 r5(1) by (simp only: run_append option.case)
  then show ?thesis
    using r5(2) by blast
qed


section \<open>The claims\<close>

subsection \<open>\<open>merger\<close> and \<open>merge_files\<close>\<close>



text \<open>
  C4. For a list of one path \<open>merger\<close> returns that path and leaves the file system as it
  was: no file is created, changed or deleted.
\<close>

theorem merger_single_is_noop: "merger CH [fn] fs = Some (Inr fn, fs)"
  by (simp add: merger_def)

text \<open>
  C10. When every path of the list is a file, \<open>merge_files\<close> returns a new file whose
  records are those of the inputs, each as often as the inputs hold it: as many records as
  the inputs hold together, and no byte besides them.
\<close>

theorem merge_files_record_count:
  assumes "0 < CH" and "\<forall>fn \<in> set fn_list. isfile fs fn"
  shows "\<exists>res fs' out.
           merge_files CH fn_list fs = Some (Inr res, fs') \<and>
           \<not> isfile fs res \<and>
           map_of fs' res = Some out \<and>
           length (unpack out) = (\<Sum>fn\<leftarrow>fn_list. length (unpack (the (map_of fs fn)))) \<and>
           length out = 4 * (\<Sum>fn\<leftarrow>fn_list. length (unpack (the (map_of fs fn)))) \<and>
           mset (unpack out) = (\<Sum>fn\<leftarrow>fn_list. mset (unpack (the (map_of fs fn))))"
proof -
  let ?fs1 = "AList.update (tmpf fs) [] fs"
  let ?its = "map (\<lambda>fn. unpack (the (map_of fs fn))) fn_list"
  let ?out = "pack (heapq_merge ?its)"
  have same: "map_of ?fs1 fn = map_of fs fn" if "fn \<in> set fn_list" for fn
    using that assms(2) by (simp add: isfile_tmpf_update)
  then have all: "\<forall>fn \<in> set fn_list. isfile ?fs1 fn"
    using assms(2) by (simp add: isfile_def)
  have its: "map (\<lambda>fn. unpack (the (map_of ?fs1 fn))) fn_list = ?its"
    using same by simp
  have "merge_files CH fn_list fs = Some (Inr (tmpf fs), AList.update (tmpf fs) ?out ?fs1)"
    unfolding merge_files_eq [OF assms(1)] Let_def its using all by simp
  moreover have "\<not> isfile fs (tmpf fs)"
    by (simp add: isfile_def tmpf_fresh)
  moreover have "map_of (AList.update (tmpf fs) ?out ?fs1) (tmpf fs) = Some ?out"
    by (simp add: update_conv')
  moreover have "length (unpack ?out) = (\<Sum>fn\<leftarrow>fn_list. length (unpack (the (map_of fs fn))))"
    by (simp add: unpack_pack length_heapq_merge comp_def)
  moreover have "length ?out = 4 * (\<Sum>fn\<leftarrow>fn_list. length (unpack (the (map_of fs fn))))"
    by (simp add: length_pack length_heapq_merge comp_def)
  moreover have "mset (unpack ?out) = (\<Sum>fn\<leftarrow>fn_list. mset (unpack (the (map_of fs fn))))"
    by (simp add: unpack_pack mset_heapq_merge mset_concat comp_def)
  ultimately show ?thesis
    by blast
qed
theorem merge_files_record_count_witness:
  "0 < (2::nat) \<and> isfile [(''a'', pack [3,3,5]), (''b'', pack [1,2,4,9,10])] ''a'' \<and>
   isfile [(''a'', pack [3,3,5]), (''b'', pack [1,2,4,9,10])] ''b'' \<and>
   (\<exists>res fs' out.
      merge_files 2 [''a'', ''b''] [(''a'', pack [3,3,5]), (''b'', pack [1,2,4,9,10])]
        = Some (Inr res, fs') \<and>
      map_of fs' res = Some out \<and> length (unpack out) = 8 \<and> length out = 32)"
proof -
  let ?fs = "[(''a'', pack [3,3,5]), (''b'', pack [1,2,4,9,10])]"
  have pos: "0 < (2::nat)"
    by simp
  have ex: "\<forall>fn \<in> set [''a'', ''b'']. isfile ?fs fn"
    by (simp add: isfile_def)
  obtain res fs' out where
    r: "merge_files 2 [''a'', ''b''] ?fs = Some (Inr res, fs')" "map_of fs' res = Some out"
       "length (unpack out) = (\<Sum>fn\<leftarrow>[''a'', ''b'']. length (unpack (the (map_of ?fs fn))))"
       "length out = 4 * (\<Sum>fn\<leftarrow>[''a'', ''b'']. length (unpack (the (map_of ?fs fn))))"
    using merge_files_record_count [OF pos ex] by blast
  have "length (unpack out) = 8" "length out = 32"
    using r(3,4) by (simp_all add: unpack_pack)
  then show ?thesis
    using r(1,2) ex by auto
qed

subsection \<open>\<open>cutter\<close>\<close>

text \<open>
  C7. For an input file \<open>f\<close>, \<open>cutter\<close> yields the names of new, pairwise different
  files; read in the order yielded, their contents are \<open>f\<close>, byte for byte; every segment
  but the last holds exactly \<open>INT_PER_FILE\<close> records (\<open>4 * INT_PER_FILE\<close> bytes), and
  the last is not empty and not longer; no other file is touched.
\<close>

theorem cutter_segments:
  assumes "0 < N" and "map_of fs fn = Some f"
  shows "\<exists>names fs'.
           cutter N fn fs = Inr (names, fs') \<and>
           distinct names \<and>
           (\<forall>p \<in> set names. \<not> isfile fs p \<and> isfile fs' p) \<and>
           (\<forall>p. p \<notin> set names \<longrightarrow> map_of fs' p = map_of fs p) \<and>
           concat (map (\<lambda>p. the (map_of fs' p)) names) = f \<and>
           (\<forall>i. Suc i < length names \<longrightarrow>
                  length (the (map_of fs' (names ! i))) = 4 * N \<and>
                  length (unpack (the (map_of fs' (names ! i)))) = N) \<and>
           (names \<noteq> [] \<longrightarrow> 0 < length (the (map_of fs' (last names))) \<and>
                            length (the (map_of fs' (last names))) \<le> 4 * N)"
proof -
  obtain names fs' where loop: "cutter_loop N f fs = (names, fs')"
    by (cases "cutter_loop N f fs") auto
  note spec = cutter_loop_spec [OF assms(1) loop]
  have "cutter N fn fs = Inr (names, fs')"
    using assms(2) loop by (simp add: cutter_def)
  moreover have "\<forall>i. Suc i < length names \<longrightarrow>
                  length (the (map_of fs' (names ! i))) = 4 * N \<and>
                  length (unpack (the (map_of fs' (names ! i)))) = N"
    using spec by (simp add: length_unpack mult.commute)
  moreover have "\<forall>p \<in> set names. \<not> isfile fs p \<and> isfile fs' p"
    using spec by (simp add: isfile_def)
  moreover have "names \<noteq> [] \<longrightarrow> 0 < length (the (map_of fs' (last names))) \<and>
                            length (the (map_of fs' (last names))) \<le> 4 * N"
    using spec by (simp add: mult.commute)
  ultimately show ?thesis
    using spec by blast
qed

theorem cutter_segments_witness:
  "0 < (2::nat) \<and>
   map_of [(''in'', pack [5,3,3,1,4])] ''in'' = Some (pack [5,3,3,1,4]) \<and>
   cutter 2 ''in'' [(''in'', pack [5,3,3,1,4])] =
     Inr ([''tmp/tmp'', ''tmp/tmpx'', ''tmp/tmpxx''],
          [(''in'', pack [5,3,3,1,4]), (''tmp/tmp'', pack [5,3]), (''tmp/tmpx'', pack [3,1]),
           (''tmp/tmpxx'', pack [4])]) \<and>
   pack [5,3] @ pack [3,1] @ pack [4] = pack [5,3,3,1,4] \<and>
   length (pack [5,3]) = 4 * 2 \<and> length (pack [3,1]) = 4 * 2 \<and> length (pack [4]) \<le> 4 * 2"
proof -
  let ?fs = "[(''in'', pack [5,3,3,1,4])]"
  have pos: "0 < (2::nat)" by simp
  have f: "map_of ?fs ''in'' = Some (pack [5,3,3,1,4])" by simp
  have run: "cutter 2 ''in'' ?fs =
     Inr ([''tmp/tmp'', ''tmp/tmpx'', ''tmp/tmpxx''],
          [(''in'', pack [5,3,3,1,4]), (''tmp/tmp'', pack [5,3]), (''tmp/tmpx'', pack [3,1]),
           (''tmp/tmpxx'', pack [4])])"
    by (simp add: cutter_def cutter_loop.simps cutter_next_def Let_def tmpf_def TMP_DIR_def
        pack_def int_bytes_def)
  obtain names fs' where
    r: "cutter 2 ''in'' ?fs = Inr (names, fs')"
       "concat (map (\<lambda>p. the (map_of fs' p)) names) = pack [5,3,3,1,4]"
       "\<forall>i. Suc i < length names \<longrightarrow>
                  length (the (map_of fs' (names ! i))) = 4 * 2 \<and>
                  length (unpack (the (map_of fs' (names ! i)))) = 2"
       "names \<noteq> [] \<longrightarrow> 0 < length (the (map_of fs' (last names))) \<and>
                            length (the (map_of fs' (last names))) \<le> 4 * 2"
    using cutter_segments [OF pos f] by blast
  have names: "names = [''tmp/tmp'', ''tmp/tmpx'', ''tmp/tmpxx'']"
    and fs': "fs' = [(''in'', pack [5,3,3,1,4]), (''tmp/tmp'', pack [5,3]), (''tmp/tmpx'', pack [3,1]),
           (''tmp/tmpxx'', pack [4])]"
    using r(1) run by simp_all
  have "pack [5,3] @ pack [3,1] @ pack [4] = pack [5,3,3,1,4]"
    using r(2) unfolding names fs' by simp
  moreover have "length (pack [5,3]) = 4 * 2"
    using r(3) [rule_format, of 0] unfolding names fs' by simp
  moreover have "length (pack [3,1]) = 4 * 2"
    using r(3) [rule_format, of 1] unfolding names fs' by simp
  moreover have "length (pack [4]) \<le> 4 * 2"
    using r(4) unfolding names fs' by simp
  ultimately show ?thesis
    using run by simp
qed

subsection \<open>A trailing partial record\<close>

text \<open>
  C9, as the claim states it, fails: of the six bytes of a whole record and half a record,
  \<open>file_reader\<close> yields the whole record and nothing else, and \<open>sorter\<close> rewrites the
  file with the whole record alone.
\<close>

theorem partial_record_counterexample:
  "file_reader INT_PER_CHUNK ''seg'' [(''seg'', [1, 0, 0, 0, 2, 0])] = Some (Inr [1]) \<and>
   sorter INT_PER_FILE ''seg'' [(''seg'', [1, 0, 0, 0, 2, 0])]
     = (Inr ''seg'', [(''seg'', [1, 0, 0, 0])])"
  by (simp add: file_reader_eq INT_PER_CHUNK_def sorter_eq INT_PER_FILE_def bytes_int_def
      pack_def int_bytes_def)

text \<open>
  C9, amended. For a file whose length is not a multiple of 4, the bytes after the last
  whole record are dropped without an error: \<open>file_reader\<close> yields the whole records
  before them and no element for them, and \<open>sorter\<close> writes back whole records only (at
  most \<open>INT_PER_FILE\<close> of them), a file shorter than the one it read.
\<close>

theorem partial_record_dropped:
  assumes "0 < CH" and "map_of fs fn = Some f" and "length f mod 4 \<noteq> 0"
  shows "file_reader CH fn fs = Some (Inr (unpack f)) \<and>
         length (unpack f) = length f div 4 \<and>
         pack (unpack f) = take (4 * (length f div 4)) f \<and>
         sorter N fn fs = (Inr fn, AList.update fn (pack (sort_key sint (take N (unpack f)))) fs) \<and>
         length (pack (sort_key sint (take N (unpack f)))) = 4 * min N (length f div 4) \<and>
         length (pack (sort_key sint (take N (unpack f)))) < length f"
proof -
  have "file_reader CH fn fs = Some (Inr (unpack f))"
    using assms(1,2) by (simp add: file_reader_eq)
  moreover have len: "length (pack (sort_key sint (take N (unpack f)))) = 4 * min N (length f div 4)"
    by (simp add: length_pack length_unpack min.commute)
  moreover have "4 * min N (length f div 4) < length f"
  proof -
    have "4 * (length f div 4) < length f"
      using assms(3) by presburger
    moreover have "4 * min N (length f div 4) \<le> 4 * (length f div 4)"
      by simp
    ultimately show ?thesis
      by linarith
  qed
  ultimately show ?thesis
    using assms(2) by (simp add: length_unpack pack_unpack sorter_eq)
qed

theorem partial_record_dropped_witness:
  "0 < (2::nat) \<and>
   map_of [(''seg'', [7, 0, 0, 0, 1, 0, 0, 0, 2, 0])] ''seg'' = Some [7, 0, 0, 0, 1, 0, 0, 0, 2, 0] \<and>
   length [7, 0, 0, 0, 1, 0, 0, 0, 2, 0 :: byte] mod 4 \<noteq> 0 \<and>
   file_reader 2 ''seg'' [(''seg'', [7, 0, 0, 0, 1, 0, 0, 0, 2, 0])] = Some (Inr [7, 1]) \<and>
   sorter 3 ''seg'' [(''seg'', [7, 0, 0, 0, 1, 0, 0, 0, 2, 0])]
     = (Inr ''seg'', [(''seg'', [1, 0, 0, 0, 7, 0, 0, 0])])"
proof -
  let ?f = "[7, 0, 0, 0, 1, 0, 0, 0, 2, 0] :: byte list"
  have h: "0 < (2::nat)" "map_of [(''seg'', ?f)] ''seg'' = Some ?f" "length ?f mod 4 \<noteq> 0"
    by simp_all
  show ?thesis
    using partial_record_dropped [OF h, of 3] h by (simp add: bytes_int_def pack_def int_bytes_def)
qed

subsection \<open>\<open>sort\<close>: the whole run\<close>

lemma tmpf_not_out: "tmpf fs \<noteq> ''out''"
  by (simp add: tmpf_def TMP_DIR_def)

text \<open>
  C2. Whenever \<open>sort(input, output)\<close> returns, the output file consists of whole records
  in non-decreasing order (as signed integers): whatever the input, and at whatever
  moments the callbacks run between the coordinator's accesses to \<open>sorted_fn_list\<close>,
  also where a callback's append is lost. And on an input file that is not empty
  \<open>sort\<close> can return: some run ends with the output written (for a segment size of at
  least 1, a fan-in of at least 2 and an output path that is not handed out as a temporary
  name).
\<close>

theorem sort_output_sorted:
  assumes "0 < CH"
  shows "(0 < N \<and> 2 \<le> M \<and> map_of fs input = Some f \<and> f \<noteq> [] \<and> (\<forall>fs'. tmpf fs' \<noteq> output) \<longrightarrow>
            (\<exists>evs s. run CH N M input output evs (sort_start fs) = Some s \<and> pc s = Done)) \<and>
         (\<forall>evs s. run CH N M input output evs (sort_start fs) = Some s \<and> pc s = Done \<longrightarrow>
            (\<exists>g. map_of (files s) output = Some g \<and>
                 length g mod 4 = 0 \<and> sorted (map sint (unpack g))))"
proof (intro conjI impI allI)
  assume "0 < N \<and> 2 \<le> M \<and> map_of fs input = Some f \<and> f \<noteq> [] \<and> (\<forall>fs'. tmpf fs' \<noteq> output)"
  then show "\<exists>evs s. run CH N M input output evs (sort_start fs) = Some s \<and> pc s = Done"
    using sort_returns [OF assms] by blast
next
  fix evs s
  assume r: "run CH N M input output evs (sort_start fs) = Some s \<and> pc s = Done"
  then have "sort_inv output s"
    using sort_inv_run [OF assms sort_inv_start] by blast
  then show "\<exists>g. map_of (files s) output = Some g \<and>
                 length g mod 4 = 0 \<and> sorted (map sint (unpack g))"
    using r by (simp add: sort_inv_def sorted_file_def)
qed

theorem sort_output_sorted_witness:
  "0 < INT_PER_CHUNK \<and> 0 < (3::nat) \<and> 2 \<le> MERGES \<and>
   map_of [(''in'', pack [5, 3, 3, 1, 4, 2])] ''in'' = Some (pack [5, 3, 3, 1, 4, 2]) \<and>
   pack [5, 3, 3, 1, 4, 2] \<noteq> [] \<and>
   (\<forall>fs'. tmpf fs' \<noteq> ''out'') \<and>
   (\<exists>evs s. run INT_PER_CHUNK 3 MERGES ''in'' ''out'' evs
              (sort_start [(''in'', pack [5, 3, 3, 1, 4, 2])]) = Some s \<and> pc s = Done) \<and>
   (\<exists>s. run INT_PER_CHUNK 3 MERGES ''in'' ''out''
          [Coordinator, Coordinator, Coordinator, Coordinator, Completion 0, Completion 0,
           Coordinator, Coordinator, Coordinator, Coordinator, Coordinator, Coordinator,
           Coordinator, Completion 0, Coordinator, Coordinator]
          (sort_start [(''in'', pack [5, 3, 3, 1, 4, 2])]) = Some s \<and>
        pc s = Done \<and>
        map_of (files s) ''out'' = Some (pack [1, 2, 3, 3, 4, 5]) \<and>
        length (pack [1, 2, 3, 3, 4, 5]) mod 4 = 0 \<and>
        sorted (map sint (unpack (pack [1, 2, 3, 3, 4, 5 :: cint]))))"
proof -
  let ?fs = "[(''in'', pack [5, 3, 3, 1, 4, 2])]"
  have pos: "0 < INT_PER_CHUNK"
    by (simp add: INT_PER_CHUNK_def)
  have h: "0 < (3::nat) \<and> 2 \<le> MERGES \<and> map_of ?fs ''in'' = Some (pack [5, 3, 3, 1, 4, 2]) \<and>
           pack [5, 3, 3, 1, 4, 2] \<noteq> [] \<and> (\<forall>fs'. tmpf fs' \<noteq> ''out'')"
    by (simp add: MERGES_def pack_def int_bytes_def tmpf_not_out)
  obtain s where r: "run INT_PER_CHUNK 3 MERGES ''in'' ''out''
          [Coordinator, Coordinator, Coordinator, Coordinator, Completion 0, Completion 0,
           Coordinator, Coordinator, Coordinator, Coordinator, Coordinator, Coordinator,
           Coordinator, Completion 0, Coordinator, Coordinator]
          (sort_start ?fs) = Some s"
    and d: "pc s = Done" and out: "map_of (files s) ''out'' = Some (pack [1, 2, 3, 3, 4, 5])"
    by (simp add: exec_simps)
  note inst = sort_output_sorted [OF pos, where N = 3 and M = MERGES and fs = ?fs
      and f = "pack [5, 3, 3, 1, 4, 2]"]
  have ex: "\<exists>evs s. run INT_PER_CHUNK 3 MERGES ''in'' ''out'' evs (sort_start ?fs) = Some s \<and>
              pc s = Done"
    using inst h by blast
  have "\<exists>g. map_of (files s) ''out'' = Some g \<and> length g mod 4 = 0 \<and>
          sorted (map sint (unpack g))"
    using inst r d by blast
  then have "length (pack [1, 2, 3, 3, 4, 5]) mod 4 = 0 \<and>
             sorted (map sint (unpack (pack [1, 2, 3, 3, 4, 5 :: cint])))"
    using out by simp
  then have run: "\<exists>s. run INT_PER_CHUNK 3 MERGES ''in'' ''out''
          [Coordinator, Coordinator, Coordinator, Coordinator, Completion 0, Completion 0,
           Coordinator, Coordinator, Coordinator, Coordinator, Coordinator, Coordinator,
           Coordinator, Completion 0, Coordinator, Coordinator]
          (sort_start ?fs) = Some s \<and>
        pc s = Done \<and>
        map_of (files s) ''out'' = Some (pack [1, 2, 3, 3, 4, 5]) \<and>
        length (pack [1, 2, 3, 3, 4, 5]) mod 4 = 0 \<and>
        sorted (map sint (unpack (pack [1, 2, 3, 3, 4, 5 :: cint])))"
    using r d out by (elim conjE) (intro exI [of _ s] conjI; assumption)
  show ?thesis
    using pos h ex run by (elim conjE) (intro conjI; assumption)
qed

text \<open>
  C5 fails on the code. On an empty input file \<open>cutter\<close> yields nothing, the queue stays
  empty, and \<open>merge_tasks\<close> goes round between \<open>while True\<close> and the renewal of the
  pool for ever: under every schedule \<open>sort\<close> has not returned, has changed no file, and
  has a next statement to run.
\<close>

theorem sort_empty_input_never_returns:
  assumes "map_of fs input = Some []"
    and "run CH N M input output evs (sort_start fs) = Some s"
  shows "pc s \<noteq> Done \<and> pc s \<noteq> Exit1 \<and> (\<forall>e. pc s \<noteq> Raised e) \<and> files s = fs \<and>
         (\<exists>s'. coordinator N M input output s = Some s')"
proof -
  define early :: "state \<Rightarrow> bool" where "early s \<longleftrightarrow> sorted_fn_list s = [] \<and> in_flight s = [] \<and> files s = fs \<and>
      (pc s = Start \<or> pc s = Cutting [] \<or> pc s = SortJoin \<or> pc s = LoopTop \<or> pc s = Barrier)"
    for s
  have stp: "early s'" if "early s" "step CH N M input output e s = Some s'" for s s' e
  proof (cases e)
    case Coordinator
    then show ?thesis
      using that assms(1)
      by (auto simp: early_def coordinator_def cutter_next_def split: if_splits)
  next
    case (Completion i)
    then show ?thesis
      using that by (simp add: early_def completion_def)
  qed
  have rn: "early s \<Longrightarrow> run CH N M input output es s = Some s' \<Longrightarrow> early s'" for es s s'
  proof (induction es arbitrary: s)
    case Nil
    then show ?case by simp
  next
    case (Cons e es)
    then show ?case
      using stp by (auto split: option.splits)
  qed
  have "early (sort_start fs)"
    by (simp add: early_def sort_start_def)
  then have "early s"
    using assms(2) by (rule rn)
  then show ?thesis
    using assms(1) by (auto simp: early_def coordinator_def cutter_next_def)
qed

theorem sort_empty_input_never_returns_witness:
  "map_of [(''in'', [])] ''in'' = Some [] \<and>
   run INT_PER_CHUNK INT_PER_FILE MERGES ''in'' ''out''
     [Coordinator, Coordinator, Coordinator, Coordinator, Coordinator, Coordinator]
     (sort_start [(''in'', [])])
   = Some \<lparr>files = [(''in'', [])], sorted_fn_list = [], in_flight = [], pc = Barrier\<rparr> \<and>
   pc \<lparr>files = [(''in'', [])], sorted_fn_list = [], in_flight = [], pc = Barrier\<rparr> \<noteq> Done \<and>
   coordinator INT_PER_FILE MERGES ''in'' ''out''
     \<lparr>files = [(''in'', [])], sorted_fn_list = [], in_flight = [], pc = Barrier\<rparr>
   = Some \<lparr>files = [(''in'', [])], sorted_fn_list = [], in_flight = [], pc = LoopTop\<rparr>"
proof -
  have f: "map_of [(''in'', [])] ''in'' = Some ([] :: byte list)"
    by simp
  have r: "run INT_PER_CHUNK INT_PER_FILE MERGES ''in'' ''out''
     [Coordinator, Coordinator, Coordinator, Coordinator, Coordinator, Coordinator]
     (sort_start [(''in'', [])])
   = Some \<lparr>files = [(''in'', [])], sorted_fn_list = [], in_flight = [], pc = Barrier\<rparr>"
    by (simp add: coordinator_def cutter_next_def sort_start_def)
  show ?thesis
    using sort_empty_input_never_returns [OF f r] r by (simp add: coordinator_def)
qed

text \<open>
  C1 fails on the code. The callback of the first merge task (16 segments) runs after
  \<open>merge_tasks\<close> has yielded the list of the second task (the 2 segments left) and before
  it runs \<open>sorted_fn_list = sorted_fn_list[MERGES:]\<close>: the assignment then drops the
  result of the first task with the 2 names yielded, and the output holds 2 of the 18
  records. (\<open>INT_PER_FILE\<close> is 1 here, so that 18 records are 18 segments.)
\<close>

theorem sort_can_lose_records:
  "\<exists>s. run INT_PER_CHUNK 1 MERGES ''in'' ''out''
     (replicate 20 Coordinator @ replicate 18 (Completion 0) @ replicate 9 Coordinator @
      [Completion 0, Coordinator, Coordinator, Coordinator, Completion 0, Coordinator,
       Coordinator])
     (sort_start [(''in'', pack [18, 17, 16, 15, 14, 13, 12, 11, 10, 9, 8, 7, 6, 5, 4, 3, 2, 1])])
     = Some s \<and>
     pc s = Done \<and> map_of (files s) ''out'' = Some (pack [1, 2])"
  by (simp add: exec_simps replicate_numeral)

text \<open>
  C6 fails on the code. With a queue of two segments, the one merge task may complete
  before \<open>merge_tasks\<close> has stored the value of \<open>sorted_fn_list[MERGES:]\<close>: with a fan-in
  of 2 or more when it completes after that slice was evaluated (to the empty list) and
  before the store, and with a fan-in of 3 or more also when it completes after it was
  submitted and before the slice is evaluated (the slice of the three names is empty
  again). The task's result is dropped either way: the queue is empty, no task is in
  flight, and whatever happens next the loop has not ended and has a next statement to
  run, while the merged segment lies in the temporary directory.
\<close>

theorem merge_tasks_can_spin_forever:
  assumes "2 \<le> M \<and>
             evs0 = [Coordinator, Coordinator, Coordinator, Coordinator, Completion 0, Coordinator] \<or>
           3 \<le> M \<and>
             evs0 = [Coordinator, Coordinator, Coordinator, Completion 0, Coordinator, Coordinator]"
    and "run INT_PER_CHUNK N M input output (evs0 @ evs)
           (merge_tasks_start [(''a'', pack [3]), (''b'', pack [1])] [''a'', ''b'']) = Some s"
  shows "sorted_fn_list s = [] \<and> in_flight s = [] \<and> (pc s = LoopTop \<or> pc s = Barrier) \<and>
         files s = [(''tmp/tmp'', pack [1, 3])] \<and>
         (\<exists>s'. coordinator N M input output s = Some s')"
proof -
  let ?s0 = "\<lparr>files = [(''tmp/tmp'', pack [1, 3])], sorted_fn_list = [], in_flight = [],
              pc = LoopTop\<rparr>"
  have "run INT_PER_CHUNK N M input output evs0
          (merge_tasks_start [(''a'', pack [3]), (''b'', pack [1])] [''a'', ''b'']) = Some ?s0"
    using assms(1)
  proof (elim disjE conjE)
    assume "2 \<le> M"
      and "evs0 = [Coordinator, Coordinator, Coordinator, Coordinator, Completion 0, Coordinator]"
    then show ?thesis
      by (simp add: exec_simps)
  next
    assume "3 \<le> M"
      and "evs0 = [Coordinator, Coordinator, Coordinator, Completion 0, Coordinator, Coordinator]"
    then show ?thesis
      by (simp add: exec_simps)
  qed
  then have rest: "run INT_PER_CHUNK N M input output evs ?s0 = Some s"
    using assms(2) by (simp only: run_append option.case)
  have "spinning ?s0"
    by (simp add: spinning_def)
  then have "spinning s \<and> files s = files ?s0"
    using rest by (rule spinning_run)
  then show ?thesis
    using spinning_goes_on [of s] by (simp add: spinning_def)
qed

theorem merge_tasks_can_spin_forever_witness:
  "2 \<le> MERGES \<and> 3 \<le> MERGES \<and>
   run INT_PER_CHUNK INT_PER_FILE MERGES ''in'' ''out''
     ([Coordinator, Coordinator, Coordinator, Coordinator, Completion 0, Coordinator] @
      [Coordinator, Coordinator, Coordinator])
     (merge_tasks_start [(''a'', pack [3]), (''b'', pack [1])] [''a'', ''b''])
   = Some \<lparr>files = [(''tmp/tmp'', pack [1, 3])], sorted_fn_list = [], in_flight = [],
            pc = Barrier\<rparr> \<and>
   run INT_PER_CHUNK INT_PER_FILE MERGES ''in'' ''out''
     ([Coordinator, Coordinator, Coordinator, Completion 0, Coordinator, Coordinator] @
      [Coordinator, Coordinator, Coordinator])
     (merge_tasks_start [(''a'', pack [3]), (''b'', pack [1])] [''a'', ''b''])
   = Some \<lparr>files = [(''tmp/tmp'', pack [1, 3])], sorted_fn_list = [], in_flight = [],
            pc = Barrier\<rparr> \<and>
   coordinator INT_PER_FILE MERGES ''in'' ''out''
     \<lparr>files = [(''tmp/tmp'', pack [1, 3])], sorted_fn_list = [], in_flight = [], pc = Barrier\<rparr>
   = Some \<lparr>files = [(''tmp/tmp'', pack [1, 3])], sorted_fn_list = [], in_flight = [],
            pc = LoopTop\<rparr>"
proof -
  let ?a = "[Coordinator, Coordinator, Coordinator, Coordinator, Completion 0, Coordinator]"
  let ?b = "[Coordinator, Coordinator, Coordinator, Completion 0, Coordinator, Coordinator]"
  have m: "2 \<le> MERGES" "3 \<le> MERGES"
    by (simp_all add: MERGES_def)
  have ra: "run INT_PER_CHUNK INT_PER_FILE MERGES ''in'' ''out''
     (?a @ [Coordinator, Coordinator, Coordinator])
     (merge_tasks_start [(''a'', pack [3]), (''b'', pack [1])] [''a'', ''b''])
   = Some \<lparr>files = [(''tmp/tmp'', pack [1, 3])], sorted_fn_list = [], in_flight = [],
            pc = Barrier\<rparr>"
    by (simp add: exec_simps)
  have rb: "run INT_PER_CHUNK INT_PER_FILE MERGES ''in'' ''out''
     (?b @ [Coordinator, Coordinator, Coordinator])
     (merge_tasks_start [(''a'', pack [3]), (''b'', pack [1])] [''a'', ''b''])
   = Some \<lparr>files = [(''tmp/tmp'', pack [1, 3])], sorted_fn_list = [], in_flight = [],
            pc = Barrier\<rparr>"
    by (simp add: exec_simps)
  have ha: "2 \<le> MERGES \<and> ?a = ?a \<or> 3 \<le> MERGES \<and> ?a = ?b"
    using m by simp
  have hb: "2 \<le> MERGES \<and> ?b = ?a \<or> 3 \<le> MERGES \<and> ?b = ?b"
    using m by simp
  show ?thesis
    using merge_tasks_can_spin_forever [OF ha ra] merge_tasks_can_spin_forever [OF hb rb] m ra rb
    by (simp add: coordinator_def)
qed

text \<open>
  C8 fails on the code. A first run, in which every callback runs while the coordinator
  waits in \<open>pool.join()\<close>, sorts 18 records; a second run on its output, with the
  first merge task completing between the yield of the second task's list and the
  assignment, leaves an output of 2 records.
\<close>

theorem resort_can_differ:
  "\<exists>s1 s2.
     run INT_PER_CHUNK 1 MERGES ''in'' ''out''
       (replicate 20 Coordinator @ replicate 18 (Completion 0) @ replicate 12 Coordinator @
        [Completion 0, Completion 0] @ replicate 7 Coordinator @
        [Completion 0, Coordinator, Coordinator])
       (sort_start [(''in'', pack [18, 17, 16, 15, 14, 13, 12, 11, 10, 9, 8, 7, 6, 5, 4, 3, 2, 1])])
       = Some s1 \<and>
     pc s1 = Done \<and>
     map_of (files s1) ''out''
       = Some (pack [1, 2, 3, 4, 5, 6, 7, 8, 9, 10, 11, 12, 13, 14, 15, 16, 17, 18]) \<and>
     run INT_PER_CHUNK 1 MERGES ''out'' ''out2''
       (replicate 20 Coordinator @ replicate 18 (Completion 0) @ replicate 9 Coordinator @
        [Completion 0, Coordinator, Coordinator, Coordinator, Completion 0, Coordinator,
         Coordinator])
       (sort_start (files s1)) = Some s2 \<and>
     pc s2 = Done \<and>
     map_of (files s2) ''out2'' = Some (pack [17, 18])"
  by (simp add: exec_simps replicate_numeral)

end
